theory Spec2Isabelle
  imports Complex_Main "HOL-Library.AList"
begin

text \<open>
  The cache engine of \<open>createCache\<close>: a synchronous in-memory mirror in front of an
  asynchronous persistence driver, with lazy TTL expiry, cached key lists, listeners,
  batching, hydration and de-duplicated asynchronous fills. \<open>createCache\<close> returns a store
  object whose methods close over mutable variables; here those variables are the fields of
  one \<open>state\<close> record, and every function of the source takes the state and returns the new
  one together with its result.

  Conventions of the model:
  \<^item> the methods of the store object are \<open>store_get\<close>, \<open>store_set\<close>, \<open>store_keys\<close> and so on;
    the other functions keep their names;
  \<^item> \<open>Date.now()\<close> is the \<open>clock\<close> field: time does not advance inside one synchronous
    store operation;
  \<^item> a timestamp is an integer; a duration (\<open>ttlMs\<close>) is any JavaScript number: a finite
    one, whole or fractional, \<open>Infinity\<close>, \<open>-Infinity\<close> or \<open>NaN\<close>;
  \<^item> listeners, updaters and fetchers are callbacks the engine does not look into: the calls
    made to them are recorded, and they do not call back into the store;
  \<^item> driver methods return promises whose outcome the engine ignores, except during
    hydration: the calls are recorded in a log;
  \<^item> an \<open>async\<close> function is cut at each \<open>await\<close>: the part before it runs inside the call,
    the part after it is a separate event.
\<close>

section \<open>Data model (src/cache/types.ts)\<close>

text \<open>
  A cache key is a JavaScript string. Cached values are arbitrary JavaScript values; the
  only distinction the engine itself makes is between \<open>undefined\<close> and everything else,
  so a small value type with an explicit \<open>Undefined\<close> is used. Timestamps are
  millisecond counts (\<open>Date.now()\<close> returns an integer), modelled as \<open>int\<close>. A \<open>ttlMs\<close> is
  whatever number the caller passes: \<open>jsnum\<close> has the finite values (every double is a
  rational number) and the three special
  ones, which the engine's tests \<open>!ttlMs\<close>, \<open>ttlMs <= 0\<close> and \<open>age < ttlMs\<close> treat differently.
  An optional field (\<open>ttlMs?: number\<close>) is an \<open>option\<close>, with \<open>None\<close> for \<open>undefined\<close>/omitted.
  The field \<open>value\<close> of an entry is \<open>evalue\<close> (\<open>value\<close> is a reserved word here).
\<close>

type_synonym CacheKey = string

datatype jsval = Undefined | Null | Bool bool | Num int | Str string

datatype jsnum = Fin rat | PosInf | NegInf | NaN

record CacheEntry =
  evalue :: jsval
  createdAt :: int
  ttlMs :: "jsnum option"

record CacheMeta =
  m_createdAt :: int
  m_ttlMs :: "jsnum option"
  m_expiresAt :: "jsnum option"
  m_remainingMs :: "jsnum option"

text \<open>\<open>type KeyListCache = {keys: CacheKey[]; valid: boolean}\<close>\<close>

record KeyListCache =
  keys :: "CacheKey list"
  valid :: bool

text \<open>Listener callbacks are opaque; only their identity matters to the engine.\<close>

type_synonym listener = nat

text \<open>
  The persistence driver is asynchronous and every call the engine makes to it is
  fire-and-forget (\<open>.catch(() => {})\<close>), so the driver is modelled by the log of the calls
  issued to it.
\<close>

datatype driver_call =
    DrvSet CacheKey CacheEntry
  | DrvRemove CacheKey
  | DrvRemoveMany "CacheKey list"
  | DrvClearPrefix string
  | DrvKeys
  | DrvGet CacheKey
  | DrvGetMany "CacheKey list"

text \<open>
  One \<open>emitNow(key)\<close> fans out to the per-key listeners of that key (no argument), then to
  the listeners of every matching prefix, then to the global listeners (both receive the
  key). The trace of the engine records each \<open>emitNow\<close>/\<open>emitReadyNow\<close> with the listener
  calls it made, in order.
\<close>

datatype listener_call =
    KeyListener listener
  | PrefixListener string listener CacheKey
  | AllListener listener CacheKey
  | ReadyListener listener

datatype notification =
    Notify CacheKey "listener_call list"
  | NotifyReady "listener_call list"

text \<open>The settled state of a promise.\<close>

datatype settled = Resolved jsval | Rejected jsval

text \<open>The hydration bootstrap is suspended at one of its two \<open>await\<close>s, or not running.\<close>

datatype hydration = NoHydration | AwaitingKeys | AwaitingRows | HydrationFinished

text \<open>
  The closure state of \<open>createCache\<close>. JavaScript \<open>Map\<close>s and \<open>Set\<close>s iterate in insertion
  order: a \<open>Map\<close> is an association list (\<open>AList.update\<close> overwrites in place or appends,
  \<open>AList.delete\<close> removes), a \<open>Set\<close> a duplicate-free list. \<open>clock\<close> is what \<open>Date.now()\<close>
  returns; it is constant during one synchronous store operation. Promises are numbered;
  \<open>promises\<close> holds the ones that have settled, \<open>suspended\<close> the \<open>getOrSetAsync\<close>
  continuations parked at \<open>await fetcher()\<close> with the key and \<open>opts?.ttlMs\<close> they captured,
  \<open>fetcherLog\<close> the fetchers that were invoked.
\<close>

record state =
  clock :: int
  hasGetMany :: bool
  hasRemoveMany :: bool
  hasClearPrefix :: bool
  cleanupExpiredOnHydrate :: bool
  mirror :: "(CacheKey \<times> CacheEntry) list"
  keyListeners :: "(CacheKey \<times> listener list) list"
  prefixListeners :: "(string \<times> listener list) list"
  allListeners :: "listener list"
  readyListeners :: "listener list"
  batchDepth :: int
  pendingKeys :: "CacheKey list"
  pendingReadyEmit :: bool
  ready :: bool
  readyP :: "settled option"
  inFlight :: "(CacheKey \<times> nat) list"
  allKeysCache :: KeyListCache
  prefixKeysCache :: "(string \<times> KeyListCache) list"
  driverLog :: "driver_call list"
  delivered :: "notification list"
  fetcherLog :: "nat list"
  promises :: "(nat \<times> settled) list"
  suspended :: "(nat \<times> CacheKey \<times> jsnum option) list"
  nextPromise :: nat
  hydrationPhase :: hydration

section \<open>TTL policy (src/cache/ttl.ts)\<close>

text \<open>
  The three tests the engine applies to a \<open>ttlMs\<close>, as JavaScript evaluates them: \<open>!t\<close> holds
  for \<open>0\<close> and \<open>NaN\<close>; every comparison with \<open>NaN\<close> is false.
\<close>

definition numFalsy :: "jsnum \<Rightarrow> bool" where
  "numFalsy t = (t = Fin 0 \<or> t = NaN)"

definition numLess :: "int \<Rightarrow> jsnum \<Rightarrow> bool" where
  "numLess d t =
     (case t of Fin n \<Rightarrow> of_int d < n | PosInf \<Rightarrow> True | NegInf \<Rightarrow> False | NaN \<Rightarrow> False)"

definition numNonPositive :: "jsnum \<Rightarrow> bool" where
  "numNonPositive t =
     (case t of Fin n \<Rightarrow> n \<le> 0 | PosInf \<Rightarrow> False | NegInf \<Rightarrow> True | NaN \<Rightarrow> False)"

text \<open>
  \<open>createdAt + ttlMs\<close> and \<open>Math.max(0, expiresAt - now())\<close>, used by \<open>computeMeta\<close> only
  (the sum is exact here; a double may round it).
\<close>

definition numPlus :: "int \<Rightarrow> jsnum \<Rightarrow> jsnum" where
  "numPlus c t =
     (case t of Fin n \<Rightarrow> Fin (of_int c + n) | PosInf \<Rightarrow> PosInf | NegInf \<Rightarrow> NegInf | NaN \<Rightarrow> NaN)"

definition numRemaining :: "jsnum \<Rightarrow> int \<Rightarrow> jsnum" where
  "numRemaining x now =
     (case x of Fin m \<Rightarrow> Fin (max 0 (m - of_int now)) | PosInf \<Rightarrow> PosInf | NegInf \<Rightarrow> Fin 0
      | NaN \<Rightarrow> NaN)"

text \<open>\<open>!e.ttlMs\<close> holds for \<open>undefined\<close>, \<open>0\<close> and \<open>NaN\<close>.\<close>

definition isAlive :: "int \<Rightarrow> CacheEntry option \<Rightarrow> bool" where
  "isAlive now e =
     (case e of
        None \<Rightarrow> False
      | Some e' \<Rightarrow>
          (case ttlMs e' of
             None \<Rightarrow> True
           | Some t \<Rightarrow> if numFalsy t then True else numLess (now - createdAt e') t))"

definition computeMeta :: "int \<Rightarrow> CacheEntry option \<Rightarrow> CacheMeta option" where
  "computeMeta now e =
     (case e of
        None \<Rightarrow> None
      | Some e' \<Rightarrow>
          (case ttlMs e' of
             None \<Rightarrow> Some \<lparr>m_createdAt = createdAt e', m_ttlMs = None,
                            m_expiresAt = None, m_remainingMs = None\<rparr>
           | Some t \<Rightarrow>
               if numFalsy t
               then Some \<lparr>m_createdAt = createdAt e', m_ttlMs = None,
                          m_expiresAt = None, m_remainingMs = None\<rparr>
               else Some \<lparr>m_createdAt = createdAt e', m_ttlMs = Some t,
                          m_expiresAt = Some (numPlus (createdAt e') t),
                          m_remainingMs = Some (numRemaining (numPlus (createdAt e') t) now)\<rparr>))"

section \<open>Cache engine internals (src/cache/create-cache.ts)\<close>

text \<open>\<open>key.startsWith(prefix)\<close>\<close>

definition startsWith :: "string \<Rightarrow> string \<Rightarrow> bool" where
  "startsWith key prefix = (take (length prefix) key = prefix)"

text \<open>\<open>Set.prototype.add\<close>: a new element goes to the end.\<close>

definition set_add :: "'a \<Rightarrow> 'a list \<Rightarrow> 'a list" where
  "set_add x xs = (if x \<in> set xs then xs else xs @ [x])"

definition makeEntry :: "int \<Rightarrow> jsval \<Rightarrow> jsnum option \<Rightarrow> CacheEntry" where
  "makeEntry now v t = \<lparr>evalue = v, createdAt = now, ttlMs = t\<rparr>"

definition invalidateAllKeysCache :: "state \<Rightarrow> state" where
  "invalidateAllKeysCache s = s\<lparr>allKeysCache := (allKeysCache s)\<lparr>valid := False\<rparr>\<rparr>"

definition invalidatePrefixCachesForKey :: "CacheKey \<Rightarrow> state \<Rightarrow> state" where
  "invalidatePrefixCachesForKey key s =
     s\<lparr>prefixKeysCache :=
         map (\<lambda>(prefix, c). (prefix, if startsWith key prefix then c\<lparr>valid := False\<rparr> else c))
             (prefixKeysCache s)\<rparr>"

definition invalidatePrefixCache :: "string \<Rightarrow> state \<Rightarrow> state" where
  "invalidatePrefixCache prefix s =
     s\<lparr>prefixKeysCache := AList.map_entry prefix (\<lambda>c. c\<lparr>valid := False\<rparr>) (prefixKeysCache s)\<rparr>"

definition invalidateKeyCachesForMutation :: "CacheKey \<Rightarrow> state \<Rightarrow> state" where
  "invalidateKeyCachesForMutation key s =
     invalidatePrefixCachesForKey key (invalidateAllKeysCache s)"

definition fanout :: "CacheKey \<Rightarrow> state \<Rightarrow> listener_call list" where
  "fanout key s =
     map KeyListener (case map_of (keyListeners s) key of None \<Rightarrow> [] | Some ls \<Rightarrow> ls)
     @ concat (map (\<lambda>(prefix, ls).
                      if startsWith key prefix then map (\<lambda>cb. PrefixListener prefix cb key) ls
                      else [])
                   (prefixListeners s))
     @ map (\<lambda>cb. AllListener cb key) (allListeners s)"

definition emitNow :: "CacheKey \<Rightarrow> state \<Rightarrow> state" where
  "emitNow key s = s\<lparr>delivered := delivered s @ [Notify key (fanout key s)]\<rparr>"

definition emitReadyNow :: "state \<Rightarrow> state" where
  "emitReadyNow s =
     s\<lparr>delivered := delivered s @ [NotifyReady (map ReadyListener (readyListeners s))]\<rparr>"

definition queueEmitKey :: "CacheKey \<Rightarrow> state \<Rightarrow> state" where
  "queueEmitKey key s =
     (if batchDepth s > 0 then s\<lparr>pendingKeys := set_add key (pendingKeys s)\<rparr>
      else emitNow key s)"

definition queueEmitReady :: "state \<Rightarrow> state" where
  "queueEmitReady s =
     (if batchDepth s > 0 then s\<lparr>pendingReadyEmit := True\<rparr>
      else emitReadyNow s)"

definition dropKey :: "CacheKey \<Rightarrow> state \<Rightarrow> state" where
  "dropKey key s =
     invalidateKeyCachesForMutation key
       (s\<lparr>mirror := AList.delete key (mirror s),
          driverLog := driverLog s @ [DrvRemove key]\<rparr>)"

definition pruneIfDead :: "CacheKey \<Rightarrow> CacheEntry option \<Rightarrow> state \<Rightarrow> bool \<times> state" where
  "pruneIfDead key e s =
     (case e of
        None \<Rightarrow> (True, s)
      | Some e' \<Rightarrow> if isAlive (clock s) (Some e') then (False, s) else (True, dropKey key s))"

text \<open>\<open>entry\<close> is \<open>None\<close> for \<open>null\<close>. The first two branches of the source are the same code.\<close>

definition setInternal :: "CacheKey \<Rightarrow> CacheEntry option \<Rightarrow> state \<Rightarrow> state" where
  "setInternal key entry s =
     (case entry of
        None \<Rightarrow>
          queueEmitKey key
            (invalidateKeyCachesForMutation key
               (s\<lparr>mirror := AList.delete key (mirror s),
                  driverLog := driverLog s @ [DrvRemove key]\<rparr>))
      | Some e \<Rightarrow>
          (case ttlMs e of
             None \<Rightarrow>
               queueEmitKey key
                 (invalidateKeyCachesForMutation key
                    (s\<lparr>mirror := AList.update key e (mirror s),
                       driverLog := driverLog s @ [DrvSet key e]\<rparr>))
           | Some t \<Rightarrow>
               if numNonPositive t
               then queueEmitKey key
                      (invalidateKeyCachesForMutation key
                         (s\<lparr>mirror := AList.delete key (mirror s),
                            driverLog := driverLog s @ [DrvRemove key]\<rparr>))
               else queueEmitKey key
                      (invalidateKeyCachesForMutation key
                         (s\<lparr>mirror := AList.update key e (mirror s),
                            driverLog := driverLog s @ [DrvSet key e]\<rparr>))))"

definition getEntry :: "CacheKey \<Rightarrow> state \<Rightarrow> CacheEntry option \<times> state" where
  "getEntry key s =
     (case map_of (mirror s) key of
        None \<Rightarrow> (None, s)
      | Some e \<Rightarrow>
          (case pruneIfDead key (Some e) s of
             (True, s') \<Rightarrow> (None, s')
           | (False, s') \<Rightarrow> (Some e, s')))"

section \<open>Store operations: reads and writes\<close>

definition store_get :: "CacheKey \<Rightarrow> state \<Rightarrow> jsval \<times> state" where
  "store_get key s =
     (case getEntry key s of
        (None, s') \<Rightarrow> (Undefined, s')
      | (Some e, s') \<Rightarrow> (evalue e, s'))"

definition store_has :: "CacheKey \<Rightarrow> state \<Rightarrow> bool \<times> state" where
  "store_has key s =
     (case getEntry key s of
        (None, s') \<Rightarrow> (False, s')
      | (Some e, s') \<Rightarrow> (True, s'))"

definition store_meta :: "CacheKey \<Rightarrow> state \<Rightarrow> CacheMeta option \<times> state" where
  "store_meta key s = (case getEntry key s of (e, s') \<Rightarrow> (computeMeta (clock s') e, s'))"

definition store_set :: "CacheKey \<Rightarrow> jsval \<Rightarrow> jsnum option \<Rightarrow> state \<Rightarrow> state" where
  "store_set key v t s = setInternal key (Some (makeEntry (clock s) v t)) s"

definition store_update ::
  "CacheKey \<Rightarrow> (jsval \<Rightarrow> jsval) \<Rightarrow> jsnum option \<Rightarrow> state \<Rightarrow> jsval \<times> state" where
  "store_update key updater t s =
     (case store_get key s of
        (prev, s') \<Rightarrow> (updater prev, store_set key (updater prev) t s'))"

definition store_remove :: "CacheKey \<Rightarrow> state \<Rightarrow> state" where
  "store_remove key s = setInternal key None s"

text \<open>
  \<open>touch(key, ttlMs?)\<close>: an omitted argument and an explicit \<open>undefined\<close> are the same
  value inside the function, so both are \<open>None\<close>.
\<close>

definition store_touch :: "CacheKey \<Rightarrow> jsnum option \<Rightarrow> state \<Rightarrow> state" where
  "store_touch key t s =
     (case getEntry key s of
        (None, s') \<Rightarrow> s'
      | (Some e, s') \<Rightarrow>
          setInternal key
            (Some \<lparr>evalue = evalue e, createdAt = clock s',
                   ttlMs = (case t of None \<Rightarrow> ttlMs e | Some t' \<Rightarrow> Some t')\<rparr>)
            s')"

definition store_emit :: "CacheKey \<Rightarrow> state \<Rightarrow> state" where
  "store_emit key s = queueEmitKey key s"

section \<open>Key listing\<close>

text \<open>
  \<open>if (prefix && !k.startsWith(prefix)) continue\<close>: an absent and an empty prefix are both
  falsy and filter nothing.
\<close>

definition falsy :: "string option \<Rightarrow> bool" where
  "falsy prefix = (case prefix of None \<Rightarrow> True | Some p \<Rightarrow> p = [])"

definition skipsKey :: "string option \<Rightarrow> CacheKey \<Rightarrow> bool" where
  "skipsKey prefix k = (case prefix of None \<Rightarrow> False | Some p \<Rightarrow> p \<noteq> [] \<and> \<not> startsWith k p)"

text \<open>
  The loop of \<open>computeKeysForPrefix\<close> over the snapshot \<open>Array.from(mirror.entries())\<close>;
  \<open>out\<close> is the array built so far.
\<close>

fun computeKeysLoop ::
  "string option \<Rightarrow> (CacheKey \<times> CacheEntry) list \<Rightarrow> CacheKey list \<Rightarrow> state
    \<Rightarrow> CacheKey list \<times> state" where
  "computeKeysLoop prefix [] out s = (out, s)"
| "computeKeysLoop prefix ((k, e) # rest) out s =
     (if skipsKey prefix k then computeKeysLoop prefix rest out s
      else if \<not> isAlive (clock s) (Some e) then computeKeysLoop prefix rest out (dropKey k s)
      else computeKeysLoop prefix rest (out @ [k]) s)"

definition computeKeysForPrefix :: "string option \<Rightarrow> state \<Rightarrow> CacheKey list \<times> state" where
  "computeKeysForPrefix prefix s = computeKeysLoop prefix (mirror s) [] s"

text \<open>
  The loop of \<open>pruneListInPlace\<close>: the first argument is \<open>list[read..]\<close>, the second
  \<open>list[0..write)\<close>. The array is only read ahead of \<open>write\<close>, and \<open>dropKey\<close> touches no
  array, so the final contents are the kept keys (\<open>list.length = write\<close>).
\<close>

fun pruneLoop :: "CacheKey list \<Rightarrow> CacheKey list \<Rightarrow> state \<Rightarrow> CacheKey list \<times> state" where
  "pruneLoop [] kept s = (kept, s)"
| "pruneLoop (k # rest) kept s =
     (case map_of (mirror s) k of
        None \<Rightarrow> pruneLoop rest kept (invalidateKeyCachesForMutation k s)
      | Some e \<Rightarrow>
          if \<not> isAlive (clock s) (Some e) then pruneLoop rest kept (dropKey k s)
          else pruneLoop rest (kept @ [k]) s)"

text \<open>Returns the new contents of the array it was given, which its owner stores back.\<close>

definition pruneListInPlace :: "CacheKey list \<Rightarrow> state \<Rightarrow> CacheKey list \<times> state" where
  "pruneListInPlace list s = pruneLoop list [] s"

text \<open>
  \<open>getCachedKeys\<close>. The cache object \<open>c\<close> of a prefix stays in \<open>prefixKeysCache\<close> while its
  fields are assigned: recomputing assigns both fields, pruning rewrites the array held in
  \<open>keys\<close> and leaves \<open>valid\<close> as the invalidations during the scan left it. Past \<open>if (!prefix)\<close>
  the prefix is a non-empty string, so the inner \<open>None\<close> case is never taken.
\<close>

definition getCachedKeys :: "string option \<Rightarrow> state \<Rightarrow> CacheKey list \<times> state" where
  "getCachedKeys prefix s =
     (if falsy prefix then
        (if \<not> valid (allKeysCache s) then
           (case computeKeysForPrefix None s of
              (out, s1) \<Rightarrow> (out, s1\<lparr>allKeysCache := \<lparr>keys = out, valid = True\<rparr>\<rparr>))
         else
           (case pruneListInPlace (keys (allKeysCache s)) s of
              (kept, s1) \<Rightarrow> (kept, s1\<lparr>allKeysCache := (allKeysCache s1)\<lparr>keys := kept\<rparr>\<rparr>)))
      else
        (case prefix of
           None \<Rightarrow> ([], s)
         | Some p \<Rightarrow>
             (case map_of (prefixKeysCache s) p of
                None \<Rightarrow>
                  (case computeKeysForPrefix (Some p)
                          (s\<lparr>prefixKeysCache :=
                               prefixKeysCache s @ [(p, \<lparr>keys = [], valid = False\<rparr>)]\<rparr>) of
                     (out, s1) \<Rightarrow>
                       (out, s1\<lparr>prefixKeysCache :=
                                  AList.update p \<lparr>keys = out, valid = True\<rparr> (prefixKeysCache s1)\<rparr>))
              | Some c \<Rightarrow>
                  if \<not> valid c then
                    (case computeKeysForPrefix (Some p) s of
                       (out, s1) \<Rightarrow>
                         (out, s1\<lparr>prefixKeysCache :=
                                    AList.update p \<lparr>keys = out, valid = True\<rparr>
                                      (prefixKeysCache s1)\<rparr>))
                  else
                    (case pruneListInPlace (keys c) s of
                       (kept, s1) \<Rightarrow>
                         (kept, s1\<lparr>prefixKeysCache :=
                                     AList.map_entry p (\<lambda>c'. c'\<lparr>keys := kept\<rparr>)
                                       (prefixKeysCache s1)\<rparr>)))))"

definition store_keys :: "string option \<Rightarrow> state \<Rightarrow> CacheKey list \<times> state" where
  "store_keys prefix s = getCachedKeys prefix s"

text \<open>
  \<open>clear(prefix?)\<close>. \<open>ks\<close> is the array \<open>keys()\<close> returned; nothing assigns to it while
  \<open>clear\<close> runs.
\<close>

definition removeFromDriver :: "CacheKey list \<Rightarrow> state \<Rightarrow> state" where
  "removeFromDriver ks s =
     s\<lparr>driverLog := driverLog s @ (if hasRemoveMany s then [DrvRemoveMany ks] else map DrvRemove ks)\<rparr>"

definition store_clear :: "string option \<Rightarrow> state \<Rightarrow> state" where
  "store_clear prefix s =
     (if falsy prefix then
        (case store_keys None s of
           (ks, s1) \<Rightarrow>
             (let s2 = removeFromDriver ks s1;
                  s3 = s2\<lparr>mirror := fold AList.delete ks (mirror s2)\<rparr>;
                  s4 = s3\<lparr>allKeysCache := (allKeysCache s3)\<lparr>valid := False\<rparr>,
                          prefixKeysCache :=
                            map (\<lambda>(p, c). (p, c\<lparr>valid := False\<rparr>)) (prefixKeysCache s3)\<rparr>
              in fold queueEmitKey ks s4))
      else
        (case prefix of
           None \<Rightarrow> s
         | Some p \<Rightarrow>
             (case store_keys (Some p) s of
                (ks, s1) \<Rightarrow>
                  (let s2 = s1\<lparr>mirror := fold AList.delete ks (mirror s1)\<rparr>;
                       s3 = (if hasClearPrefix s2
                             then s2\<lparr>driverLog := driverLog s2 @ [DrvClearPrefix p]\<rparr>
                             else removeFromDriver ks s2);
                       s4 = invalidatePrefixCache p (invalidateAllKeysCache s3);
                       s5 = fold invalidatePrefixCachesForKey ks s4
                   in fold queueEmitKey ks s5))))"

section \<open>Subscriptions\<close>

text \<open>Each \<open>subscribe\<close> returns a closure; calling it is the matching \<open>unsubscribe\<close>.\<close>

definition subscribeKey :: "CacheKey \<Rightarrow> listener \<Rightarrow> state \<Rightarrow> state" where
  "subscribeKey key cb s =
     s\<lparr>keyListeners :=
         (case map_of (keyListeners s) key of
            None \<Rightarrow> keyListeners s @ [(key, [cb])]
          | Some ls \<Rightarrow> AList.update key (set_add cb ls) (keyListeners s))\<rparr>"

definition unsubscribeKey :: "CacheKey \<Rightarrow> listener \<Rightarrow> state \<Rightarrow> state" where
  "unsubscribeKey key cb s =
     (case map_of (keyListeners s) key of
        None \<Rightarrow> s
      | Some ls \<Rightarrow>
          if removeAll cb ls = [] then s\<lparr>keyListeners := AList.delete key (keyListeners s)\<rparr>
          else s\<lparr>keyListeners := AList.update key (removeAll cb ls) (keyListeners s)\<rparr>)"

definition subscribePrefix :: "string \<Rightarrow> listener \<Rightarrow> state \<Rightarrow> state" where
  "subscribePrefix prefix cb s =
     s\<lparr>prefixListeners :=
         (case map_of (prefixListeners s) prefix of
            None \<Rightarrow> prefixListeners s @ [(prefix, [cb])]
          | Some ls \<Rightarrow> AList.update prefix (set_add cb ls) (prefixListeners s))\<rparr>"

definition unsubscribePrefix :: "string \<Rightarrow> listener \<Rightarrow> state \<Rightarrow> state" where
  "unsubscribePrefix prefix cb s =
     (case map_of (prefixListeners s) prefix of
        None \<Rightarrow> s
      | Some ls \<Rightarrow>
          if removeAll cb ls = []
          then s\<lparr>prefixListeners := AList.delete prefix (prefixListeners s)\<rparr>
          else s\<lparr>prefixListeners := AList.update prefix (removeAll cb ls) (prefixListeners s)\<rparr>)"

definition subscribeAll :: "listener \<Rightarrow> state \<Rightarrow> state" where
  "subscribeAll cb s = s\<lparr>allListeners := set_add cb (allListeners s)\<rparr>"

definition unsubscribeAll :: "listener \<Rightarrow> state \<Rightarrow> state" where
  "unsubscribeAll cb s = s\<lparr>allListeners := removeAll cb (allListeners s)\<rparr>"

definition subscribeReady :: "listener \<Rightarrow> state \<Rightarrow> state" where
  "subscribeReady cb s = s\<lparr>readyListeners := set_add cb (readyListeners s)\<rparr>"

definition unsubscribeReady :: "listener \<Rightarrow> state \<Rightarrow> state" where
  "unsubscribeReady cb s = s\<lparr>readyListeners := removeAll cb (readyListeners s)\<rparr>"

definition isReady :: "state \<Rightarrow> bool" where
  "isReady s = ready s"

definition readyPromise :: "state \<Rightarrow> settled option" where
  "readyPromise s = readyP s"

section \<open>Batching\<close>

text \<open>The \<open>finally\<close> block of \<open>batch\<close>.\<close>

definition batch_finally :: "state \<Rightarrow> state" where
  "batch_finally s =
     (let s1 = s\<lparr>batchDepth := batchDepth s - 1\<rparr> in
      if batchDepth s1 = 0 then
        (let s2 = fold emitNow (pendingKeys s1) (s1\<lparr>pendingKeys := []\<rparr>) in
         if pendingReadyEmit s2 then emitReadyNow (s2\<lparr>pendingReadyEmit := False\<rparr>) else s2)
      else s1)"

text \<open>
  \<open>batch(fn)\<close>: \<open>fn\<close> runs on the state with the depth raised; what it returns or throws
  (its result \<open>r\<close>) passes through the \<open>finally\<close> block unchanged.
\<close>

definition store_batch :: "(state \<Rightarrow> 'r \<times> state) \<Rightarrow> state \<Rightarrow> 'r \<times> state" where
  "store_batch fn s =
     (case fn (s\<lparr>batchDepth := batchDepth s + 1\<rparr>) of (r, s1) \<Rightarrow> (r, batch_finally s1))"

section \<open>De-duplicated asynchronous fill\<close>

text \<open>
  A fetcher is an opaque function \<open>() => Promise<T>\<close>: it has an identity, and the call
  \<open>fetcher()\<close> either returns a promise, which the environment settles later, or throws
  synchronously (\<open>throws\<close>).
\<close>

datatype fetcher = Fetcher (fid: nat) (throws: "jsval option")

text \<open>\<open>opts?: {ttlMs?: number; force?: boolean}\<close>\<close>

record fetch_opts =
  o_ttlMs :: "jsnum option"
  o_force :: "bool option"

text \<open>
  What the promise returned by the \<open>async\<close> function \<open>getOrSetAsync\<close> is resolved with: a
  plain value (\<open>return cached\<close>), or another promise whose outcome it takes
  (\<open>return existing\<close>, \<open>return p\<close>).
\<close>

datatype async_result = Fulfilled jsval | Follows nat

definition settle :: "settled \<Rightarrow> settled option \<Rightarrow> settled option" where
  "settle out p = (case p of None \<Rightarrow> Some out | Some old \<Rightarrow> Some old)"

text \<open>
  The synchronous part of \<open>getOrSetAsync\<close>. The inner \<open>async\<close> function runs up to
  \<open>await fetcher()\<close> before \<open>inFlight.set(key, p)\<close>: when \<open>fetcher()\<close> returns, the
  continuation is parked and runs in a later task (\<open>fetchSettled\<close>); when \<open>fetcher()\<close> throws,
  the \<open>finally\<close> block runs at once, \<open>p\<close> is born rejected, and \<open>inFlight.set\<close> follows.
\<close>

definition getOrSetAsync ::
  "CacheKey \<Rightarrow> fetcher \<Rightarrow> fetch_opts option \<Rightarrow> state \<Rightarrow> async_result \<times> state" where
  "getOrSetAsync key fetcher opts s =
     (let force = (case opts of None \<Rightarrow> False
                   | Some os \<Rightarrow> (case o_force os of None \<Rightarrow> False | Some b \<Rightarrow> b));
          ttl = (case opts of None \<Rightarrow> None | Some os \<Rightarrow> o_ttlMs os);
          (cached, s1) = (if \<not> force then store_get key s else (Undefined, s))
      in
      if \<not> force \<and> cached \<noteq> Undefined then (Fulfilled cached, s1)
      else
        (case map_of (inFlight s1) key of
           Some existing \<Rightarrow> (Follows existing, s1)
         | None \<Rightarrow>
             (let p = nextPromise s1;
                  s2 = s1\<lparr>nextPromise := p + 1, fetcherLog := fetcherLog s1 @ [fid fetcher]\<rparr>
              in
              (case throws fetcher of
                 None \<Rightarrow>
                   (Follows p,
                    s2\<lparr>suspended := suspended s2 @ [(p, key, ttl)],
                       inFlight := AList.update key p (inFlight s2)\<rparr>)
               | Some e \<Rightarrow>
                   (Follows p,
                    s2\<lparr>promises := promises s2 @ [(p, Rejected e)],
                       inFlight := AList.update key p (AList.delete key (inFlight s2))\<rparr>)))))"

text \<open>
  The continuation of the inner \<open>async\<close> function, run when the fetcher's promise settles:
  \<open>this.set(key, v, opts?.ttlMs)\<close> on success, \<open>inFlight.delete(key)\<close> in both cases, and
  \<open>p\<close> settles with the same outcome. A promise settles once: a continuation that is not
  parked does not run.
\<close>

definition fetchSettled :: "nat \<Rightarrow> settled \<Rightarrow> state \<Rightarrow> state" where
  "fetchSettled p out s =
     (case map_of (suspended s) p of
        None \<Rightarrow> s
      | Some (key, ttl) \<Rightarrow>
          (let s1 = s\<lparr>suspended := AList.delete p (suspended s)\<rparr>;
               s2 = (case out of Resolved v \<Rightarrow> store_set key v ttl s1 | Rejected e \<Rightarrow> s1)
           in s2\<lparr>inFlight := AList.delete key (inFlight s2),
                 promises := promises s2 @ [(p, out)]\<rparr>))"

text \<open>The outcome a caller holding an \<open>async_result\<close> observes, if it has settled.\<close>

definition outcome :: "async_result \<Rightarrow> state \<Rightarrow> settled option" where
  "outcome r s = (case r of Fulfilled v \<Rightarrow> Some (Resolved v) | Follows p \<Rightarrow> map_of (promises s) p)"

section \<open>Construction and hydration bootstrap\<close>

text \<open>
  \<open>CreateCacheOptions\<close>: of the driver only the presence of its optional bulk methods is
  visible to the engine.
\<close>

record CreateCacheOptions =
  driver_getMany :: bool
  driver_removeMany :: bool
  driver_clearPrefix :: bool
  hydrate :: "bool option"
  opt_cleanupExpiredOnHydrate :: "bool option"

definition emptyState :: "CreateCacheOptions \<Rightarrow> int \<Rightarrow> state" where
  "emptyState opts now =
     \<lparr>clock = now,
      hasGetMany = driver_getMany opts,
      hasRemoveMany = driver_removeMany opts,
      hasClearPrefix = driver_clearPrefix opts,
      cleanupExpiredOnHydrate =
        (case opt_cleanupExpiredOnHydrate opts of None \<Rightarrow> True | Some b \<Rightarrow> b),
      mirror = [], keyListeners = [], prefixListeners = [], allListeners = [],
      readyListeners = [], batchDepth = 0, pendingKeys = [], pendingReadyEmit = False,
      ready = False, readyP = None, inFlight = [],
      allKeysCache = \<lparr>keys = [], valid = False\<rparr>, prefixKeysCache = [],
      driverLog = [], delivered = [], fetcherLog = [], promises = [], suspended = [],
      nextPromise = 0, hydrationPhase = NoHydration\<rparr>"

text \<open>
  \<open>createCache(opts)\<close> at time \<open>now\<close>. With hydration the bootstrap calls \<open>driver.keys()\<close>
  and is parked at its first \<open>await\<close>.
\<close>

definition createCache :: "CreateCacheOptions \<Rightarrow> int \<Rightarrow> state" where
  "createCache opts now =
     (if \<not> (case hydrate opts of None \<Rightarrow> True | Some b \<Rightarrow> b)
      then queueEmitReady
             ((emptyState opts now)\<lparr>ready := True, readyP := settle (Resolved Undefined) None\<rparr>)
      else (emptyState opts now)\<lparr>driverLog := [DrvKeys], hydrationPhase := AwaitingKeys\<rparr>)"

text \<open>The \<open>catch (e)\<close> block of the bootstrap.\<close>

definition hydrationFailed :: "jsval \<Rightarrow> state \<Rightarrow> state" where
  "hydrationFailed e s =
     queueEmitReady
       (s\<lparr>ready := True, readyP := settle (Rejected e) (readyP s),
          hydrationPhase := HydrationFinished\<rparr>)"

text \<open>\<open>await driver.keys()\<close> has settled: rejected with \<open>e\<close>, or resolved with the keys.\<close>

definition keysListed :: "jsval + CacheKey list \<Rightarrow> state \<Rightarrow> state" where
  "keysListed res s =
     (if hydrationPhase s \<noteq> AwaitingKeys then s
      else
        (case res of
           Inl e \<Rightarrow> hydrationFailed e s
         | Inr ks \<Rightarrow>
             s\<lparr>driverLog := driverLog s @ (if hasGetMany s then [DrvGetMany ks] else map DrvGet ks),
               hydrationPhase := AwaitingRows\<rparr>))"

text \<open>The loop inside the bootstrap's \<open>store.batch\<close>; it returns \<open>toDelete\<close>.\<close>

fun hydrateRows ::
  "(CacheKey \<times> CacheEntry option) list \<Rightarrow> CacheKey list \<Rightarrow> state \<Rightarrow> CacheKey list \<times> state"
  where
  "hydrateRows [] toDelete s = (toDelete, s)"
| "hydrateRows ((k, None) # rows) toDelete s = hydrateRows rows toDelete s"
| "hydrateRows ((k, Some e) # rows) toDelete s =
     (if cleanupExpiredOnHydrate s \<and> \<not> isAlive (clock s) (Some e)
      then hydrateRows rows (toDelete @ [k]) s
      else hydrateRows rows toDelete (s\<lparr>mirror := AList.update k e (mirror s)\<rparr>))"

text \<open>The rows have arrived (or the read was rejected): the rest of the bootstrap.\<close>

definition rowsFetched :: "jsval + (CacheKey \<times> CacheEntry option) list \<Rightarrow> state \<Rightarrow> state" where
  "rowsFetched res s =
     (if hydrationPhase s \<noteq> AwaitingRows then s
      else
        (case res of
           Inl e \<Rightarrow> hydrationFailed e s
         | Inr rows \<Rightarrow>
             (case store_batch (hydrateRows rows []) s of
                (toDelete, s1) \<Rightarrow>
                  (let s2 = (if cleanupExpiredOnHydrate s1 \<and> toDelete \<noteq> []
                             then removeFromDriver toDelete s1 else s1);
                       s3 = s2\<lparr>allKeysCache := (allKeysCache s2)\<lparr>valid := False\<rparr>,
                               prefixKeysCache :=
                                 map (\<lambda>(p, c). (p, c\<lparr>valid := False\<rparr>)) (prefixKeysCache s2)\<rparr>
                   in queueEmitReady
                        (s3\<lparr>ready := True, readyP := settle (Resolved Undefined) (readyP s3),
                            hydrationPhase := HydrationFinished\<rparr>)))))"

section \<open>Callers\<close>

text \<open>
  What a caller can do to a store in one synchronous stretch of code, such as the body of
  the function handed to \<open>batch\<close>: call the store's methods, nest batches, let time pass,
  and throw. \<open>exec\<close> and \<open>run\<close> return whether an exception is propagating, and the state.
\<close>

datatype call =
    CGet CacheKey
  | CHas CacheKey
  | CMeta CacheKey
  | CSet CacheKey jsval "jsnum option"
  | CUpdate CacheKey "jsval \<Rightarrow> jsval" "jsnum option"
  | CRemove CacheKey
  | CKeys "string option"
  | CClear "string option"
  | CTouch CacheKey "jsnum option"
  | CGetOrSetAsync CacheKey fetcher "fetch_opts option"
  | CSubscribeKey CacheKey listener
  | CUnsubscribeKey CacheKey listener
  | CSubscribePrefix string listener
  | CUnsubscribePrefix string listener
  | CSubscribeAll listener
  | CUnsubscribeAll listener
  | CSubscribeReady listener
  | CUnsubscribeReady listener
  | CEmit CacheKey
  | CBatch "call list"
  | CThrow
  | CTick nat

fun exec :: "call \<Rightarrow> state \<Rightarrow> bool \<times> state"
  and run :: "call list \<Rightarrow> state \<Rightarrow> bool \<times> state" where
  "exec (CGet k) s = (False, snd (store_get k s))"
| "exec (CHas k) s = (False, snd (store_has k s))"
| "exec (CMeta k) s = (False, snd (store_meta k s))"
| "exec (CSet k v t) s = (False, store_set k v t s)"
| "exec (CUpdate k f t) s = (False, snd (store_update k f t s))"
| "exec (CRemove k) s = (False, store_remove k s)"
| "exec (CKeys p) s = (False, snd (store_keys p s))"
| "exec (CClear p) s = (False, store_clear p s)"
| "exec (CTouch k t) s = (False, store_touch k t s)"
| "exec (CGetOrSetAsync k f opts) s = (False, snd (getOrSetAsync k f opts s))"
| "exec (CSubscribeKey k cb) s = (False, subscribeKey k cb s)"
| "exec (CUnsubscribeKey k cb) s = (False, unsubscribeKey k cb s)"
| "exec (CSubscribePrefix p cb) s = (False, subscribePrefix p cb s)"
| "exec (CUnsubscribePrefix p cb) s = (False, unsubscribePrefix p cb s)"
| "exec (CSubscribeAll cb) s = (False, subscribeAll cb s)"
| "exec (CUnsubscribeAll cb) s = (False, unsubscribeAll cb s)"
| "exec (CSubscribeReady cb) s = (False, subscribeReady cb s)"
| "exec (CUnsubscribeReady cb) s = (False, unsubscribeReady cb s)"
| "exec (CEmit k) s = (False, store_emit k s)"
| "exec (CBatch body) s =
     (case run body (s\<lparr>batchDepth := batchDepth s + 1\<rparr>) of
        (thrown, s1) \<Rightarrow> (thrown, batch_finally s1))"
| "exec CThrow s = (True, s)"
| "exec (CTick d) s = (False, s\<lparr>clock := clock s + int d\<rparr>)"
| "run [] s = (False, s)"
| "run (c # cs) s =
     (case exec c s of
        (thrown, s1) \<Rightarrow> if thrown then (True, s1) else run cs s1)"

text \<open>
  The tasks of the event loop that touch a store: a caller's synchronous code, the
  continuation of a fetch, and the two continuations of the hydration bootstrap.
\<close>

datatype event =
    Call call
  | FetchSettled nat settled
  | KeysListed "jsval + CacheKey list"
  | RowsFetched "jsval + (CacheKey \<times> CacheEntry option) list"

fun step :: "event \<Rightarrow> state \<Rightarrow> state" where
  "step (Call c) s = snd (exec c s)"
| "step (FetchSettled p out) s = fetchSettled p out s"
| "step (KeysListed res) s = keysListed res s"
| "step (RowsFetched res) s = rowsFetched res s"

definition run_events :: "event list \<Rightarrow> state \<Rightarrow> state" where
  "run_events evs s = fold step evs s"

section \<open>Notions used to state the properties\<close>

text \<open>A store with no hydration and a driver without bulk methods, created at time 0.\<close>

definition demo_opts :: CreateCacheOptions where
  "demo_opts = \<lparr>driver_getMany = False, driver_removeMany = False, driver_clearPrefix = False,
                 hydrate = Some False, opt_cleanupExpiredOnHydrate = None\<rparr>"

definition demo_store :: state where
  "demo_store = createCache demo_opts 0"

text \<open>\<open>entry.ttlMs !== undefined && entry.ttlMs <= 0\<close>, the test that makes \<open>setInternal\<close> remove.\<close>

definition ttlRemoves :: "jsnum option \<Rightarrow> bool" where
  "ttlRemoves t = (case t of None \<Rightarrow> False | Some x \<Rightarrow> numNonPositive x)"

text \<open>A key is live when the mirror holds an entry for it that \<open>isAlive\<close> accepts now.\<close>

definition liveKey :: "state \<Rightarrow> CacheKey \<Rightarrow> bool" where
  "liveKey s k = isAlive (clock s) (map_of (mirror s) k)"

text \<open>The keys \<open>keys(prefix)\<close> is asked for: all of them, or those starting with the prefix.\<close>

definition matchesPrefix :: "string option \<Rightarrow> CacheKey \<Rightarrow> bool" where
  "matchesPrefix prefix k = (case prefix of None \<Rightarrow> True | Some p \<Rightarrow> startsWith k p)"

text \<open>What one step of the pruning scan does to the state for a key it drops.\<close>

definition evict :: "CacheKey \<Rightarrow> state \<Rightarrow> state" where
  "evict k s = (if map_of (mirror s) k = None then invalidateKeyCachesForMutation k s
                else dropKey k s)"

text \<open>
  A cached list for prefix \<open>p\<close> is sound when, if marked valid, it has every mirror key
  under \<open>p\<close>, only keys under \<open>p\<close>, and no key twice. It may still hold dead or departed
  keys: the pruning scan removes them on the next read.
\<close>

definition list_ok :: "state \<Rightarrow> string \<Rightarrow> KeyListCache \<Rightarrow> bool" where
  "list_ok s p c =
     (valid c \<longrightarrow>
        (\<forall>k \<in> fst ` set (mirror s). startsWith k p \<longrightarrow> k \<in> set (keys c))
      \<and> (\<forall>k \<in> set (keys c). startsWith k p)
      \<and> distinct (keys c))"

text \<open>The invariant of the key-list caches; the mirror, a \<open>Map\<close>, has each key once.\<close>

definition cache_inv :: "state \<Rightarrow> bool" where
  "cache_inv s =
     (distinct (map fst (mirror s))
      \<and> list_ok s [] (allKeysCache s)
      \<and> (\<forall>(p, c) \<in> set (prefixKeysCache s). list_ok s p c))"

text \<open>
  \<open>shrinks s s'\<close>: from \<open>s\<close> to \<open>s'\<close> the mirror only lost entries, the cached arrays are the
  same, and no cache became valid.
\<close>

definition shrinks :: "state \<Rightarrow> state \<Rightarrow> bool" where
  "shrinks s s' =
     (set (mirror s') \<subseteq> set (mirror s)
      \<and> (distinct (map fst (mirror s)) \<longrightarrow> distinct (map fst (mirror s')))
      \<and> keys (allKeysCache s') = keys (allKeysCache s)
      \<and> (valid (allKeysCache s') \<longrightarrow> valid (allKeysCache s))
      \<and> (\<forall>(p, c') \<in> set (prefixKeysCache s').
            \<exists>c. (p, c) \<in> set (prefixKeysCache s) \<and> keys c' = keys c \<and> (valid c' \<longrightarrow> valid c)))"

text \<open>The mirror entries under a prefix, in mirror order: the live ones and the dead ones.\<close>

definition liveEntries :: "string option \<Rightarrow> state \<Rightarrow> CacheKey list" where
  "liveEntries prefix s =
     map fst (filter (\<lambda>(k, e). matchesPrefix prefix k \<and> isAlive (clock s) (Some e)) (mirror s))"

definition deadEntries :: "string option \<Rightarrow> state \<Rightarrow> CacheKey list" where
  "deadEntries prefix s =
     map fst (filter (\<lambda>(k, e). matchesPrefix prefix k \<and> \<not> isAlive (clock s) (Some e)) (mirror s))"

text \<open>Two writes, a prefix listing, and 20 ms passing: the second entry has expired.\<close>

definition demo_events :: "event list" where
  "demo_events = [Call (CSet ''a'' (Num 1) None), Call (CSet ''ab'' (Num 2) (Some (Fin 10))),
                  Call (CKeys (Some ''a'')), Call (CTick 20)]"

text \<open>
  \<open>quiet s s'\<close>: from \<open>s\<close> to \<open>s'\<close> the batch depth and the pending ready flag are the same;
  inside a batch nothing was delivered, outside nothing was queued; the pending set stays
  duplicate-free.
\<close>

definition quiet :: "state \<Rightarrow> state \<Rightarrow> bool" where
  "quiet s s' =
     (batchDepth s' = batchDepth s
      \<and> pendingReadyEmit s' = pendingReadyEmit s
      \<and> (0 < batchDepth s \<longrightarrow> delivered s' = delivered s)
      \<and> (\<not> 0 < batchDepth s \<longrightarrow> pendingKeys s' = pendingKeys s)
      \<and> (distinct (pendingKeys s) \<longrightarrow> distinct (pendingKeys s')))"

text \<open>The pending set has no duplicates, and is empty outside a batch.\<close>

definition queue_ok :: "state \<Rightarrow> bool" where
  "queue_ok s =
     (0 \<le> batchDepth s \<and> distinct (pendingKeys s)
      \<and> (batchDepth s = 0 \<longrightarrow> pendingKeys s = [] \<and> \<not> pendingReadyEmit s))"

text \<open>No batch is open and nothing is pending: the state between two tasks.\<close>

definition idle :: "state \<Rightarrow> bool" where
  "idle s = (batchDepth s = 0 \<and> pendingKeys s = [] \<and> \<not> pendingReadyEmit s)"

text \<open>
  \<open>balanced s s'\<close>: the batch depth is restored, and inside a batch nothing was delivered.
\<close>

definition balanced :: "state \<Rightarrow> state \<Rightarrow> bool" where
  "balanced s s' =
     (batchDepth s' = batchDepth s
      \<and> (0 < batchDepth s \<longrightarrow>
            delivered s' = delivered s \<and> pendingReadyEmit s' = pendingReadyEmit s)
      \<and> (queue_ok s \<longrightarrow> queue_ok s'))"

text \<open>A store with one global listener, and a batch body that throws after four writes.\<close>

definition demo_listening :: state where
  "demo_listening = subscribeAll 7 demo_store"

definition demo_body :: "call list" where
  "demo_body = [CSet ''a'' (Num 1) None, CSet ''b'' (Num 2) None, CRemove ''a'',
                CSet ''a'' (Num 3) None, CThrow, CSet ''c'' Null None]"

text \<open>
  The part of the state that only \<open>getOrSetAsync\<close>, its continuation and the hydration
  bootstrap touch.
\<close>

definition background ::
  "state \<Rightarrow> (CacheKey \<times> nat) list \<times> nat list \<times> (nat \<times> settled) list
            \<times> (nat \<times> CacheKey \<times> jsnum option) list \<times> nat \<times> bool \<times> settled option \<times> hydration"
  where
  "background s =
     (inFlight s, fetcherLog s, promises s, suspended s, nextPromise s,
      ready s, readyP s, hydrationPhase s)"

text \<open>
  The invariant of the in-flight bookkeeping: parked continuations have distinct promises,
  every promise number in use is below \<open>nextPromise\<close>, a parked promise has not settled, and
  a continuation parked for a key is the key's \<open>inFlight\<close> entry. So at most one fetch per
  key is parked.
\<close>

definition async_inv :: "state \<Rightarrow> bool" where
  "async_inv s =
     (distinct (map fst (suspended s))
      \<and> (\<forall>q \<in> fst ` set (suspended s) \<union> fst ` set (promises s). q < nextPromise s)
      \<and> fst ` set (suspended s) \<inter> fst ` set (promises s) = {}
      \<and> (\<forall>(p, key, ttl) \<in> set (suspended s). map_of (inFlight s) key = Some p))"

text \<open>
  \<open>steady s s'\<close>: readiness is untouched and the in-flight invariant is kept.
\<close>

definition steady :: "state \<Rightarrow> state \<Rightarrow> bool" where
  "steady s s' =
     (ready s' = ready s \<and> readyP s' = readyP s \<and> hydrationPhase s' = hydrationPhase s
      \<and> (async_inv s \<longrightarrow> async_inv s'))"

text \<open>\<open>opts?.force ?? false\<close> and \<open>opts?.ttlMs\<close>.\<close>

definition forced :: "fetch_opts option \<Rightarrow> bool" where
  "forced opts =
     (case opts of None \<Rightarrow> False
      | Some os \<Rightarrow> (case o_force os of None \<Rightarrow> False | Some b \<Rightarrow> b))"

definition opts_ttl :: "fetch_opts option \<Rightarrow> jsnum option" where
  "opts_ttl opts = (case opts of None \<Rightarrow> None | Some os \<Rightarrow> o_ttlMs os)"

text \<open>The state in which \<open>getOrSetAsync\<close> consults \<open>inFlight\<close>, when it gets that far.\<close>

definition afterCacheCheck :: "CacheKey \<Rightarrow> fetch_opts option \<Rightarrow> state \<Rightarrow> state" where
  "afterCacheCheck key opts s = (if forced opts then s else snd (store_get key s))"

text \<open>
  Ready, a settled readiness promise, and a bootstrap that is not parked, come together.
\<close>

definition readiness_ok :: "state \<Rightarrow> bool" where
  "readiness_ok s =
     ((ready s \<longleftrightarrow> readyP s \<noteq> None)
      \<and> (ready s \<longleftrightarrow> hydrationPhase s = NoHydration \<or> hydrationPhase s = HydrationFinished))"

text \<open>The in-flight bookkeeping alone.\<close>

definition async_part ::
  "state \<Rightarrow> (CacheKey \<times> nat) list \<times> nat list \<times> (nat \<times> settled) list
            \<times> (nat \<times> CacheKey \<times> jsnum option) list \<times> nat" where
  "async_part s = (inFlight s, fetcherLog s, promises s, suspended s, nextPromise s)"

text \<open>
  Callers invoking \<open>getOrSetAsync\<close> for one key one after the other, no other task in
  between; each has its own fetcher and options.
\<close>

fun callAll ::
  "CacheKey \<Rightarrow> (fetcher \<times> fetch_opts option) list \<Rightarrow> state \<Rightarrow> async_result list \<times> state"
  where
  "callAll key [] s = ([], s)"
| "callAll key ((f, opts) # rest) s =
     (case getOrSetAsync key f opts s of
        (r, s1) \<Rightarrow> (case callAll key rest s1 of (rs, s2) \<Rightarrow> (r # rs, s2)))"

text \<open>A store with one fetch for \<open>k\<close> in flight; options with \<open>force: true\<close>.\<close>

definition demo_fetching :: state where
  "demo_fetching = snd (getOrSetAsync ''k'' (Fetcher 1 None) None demo_store)"

definition demo_force :: "fetch_opts option" where
  "demo_force = Some \<lparr>o_ttlMs = None, o_force = Some True\<rparr>"

text \<open>
  A fetcher that throws \<open>"boom"\<close> as it is called, and the store after
  \<open>getOrSetAsync("k", ...)\<close> was called with it on a store just created.
\<close>

definition demo_thrower :: fetcher where
  "demo_thrower = Fetcher 1 (Some (Str ''boom''))"

definition demo_poisoned :: state where
  "demo_poisoned = snd (getOrSetAsync ''k'' demo_thrower None demo_store)"

text \<open>
  A hydrating store created at time 1500, and the rows its driver returns: one entry that
  expired at 1000 and one without TTL.
\<close>

definition hydrating_opts :: CreateCacheOptions where
  "hydrating_opts = \<lparr>driver_getMany = True, driver_removeMany = True, driver_clearPrefix = False,
                      hydrate = None, opt_cleanupExpiredOnHydrate = None\<rparr>"

definition demo_rows :: "(CacheKey \<times> CacheEntry option) list" where
  "demo_rows = [(''user:1'', Some \<lparr>evalue = Str ''A'', createdAt = 0, ttlMs = Some (Fin 1000)\<rparr>),
                (''user:2'', Some \<lparr>evalue = Str ''B'', createdAt = 0, ttlMs = None\<rparr>)]"

section \<open>Unfolding sets\<close>

lemmas invalidate_defs =
  invalidateKeyCachesForMutation_def invalidateAllKeysCache_def invalidatePrefixCachesForKey_def

lemmas emit_defs = queueEmitKey_def emitNow_def fanout_def

lemmas demo_defs =
  demo_opts_def createCache_def emptyState_def queueEmitReady_def emitReadyNow_def settle_def

lemmas eval_defs =
  demo_store_def demo_defs store_set_def store_remove_def store_touch_def makeEntry_def
  setInternal_def invalidate_defs emit_defs store_get_def store_has_def getEntry_def
  pruneIfDead_def dropKey_def isAlive_def numFalsy_def numLess_def numNonPositive_def

section \<open>Reads, writes and lazy expiry\<close>

text \<open>
  C5. A \<open>set\<close> with a supplied \<open>ttlMs <= 0\<close> (a finite number that is not positive, or
  \<open>-Infinity\<close>) is a \<open>remove\<close>: the two calls produce the same
  state. In that state the key is gone from the mirror, one driver removal has been
  issued, the all-keys cache and every prefix cache matching the key are invalid, and one
  notification for the key has been queued (pending inside a batch, delivered otherwise).
\<close>

theorem set_nonpositive_ttl_is_remove:
  assumes "numNonPositive t"
  shows "store_set key v (Some t) s = store_remove key s
       \<and> mirror (store_set key v (Some t) s) = AList.delete key (mirror s)
       \<and> map_of (mirror (store_set key v (Some t) s)) key = None
       \<and> driverLog (store_set key v (Some t) s) = driverLog s @ [DrvRemove key]
       \<and> \<not> valid (allKeysCache (store_set key v (Some t) s))
       \<and> (\<forall>(p, c) \<in> set (prefixKeysCache (store_set key v (Some t) s)).
             startsWith key p \<longrightarrow> \<not> valid c)
       \<and> (if batchDepth s > 0
           then pendingKeys (store_set key v (Some t) s) = set_add key (pendingKeys s)
              \<and> delivered (store_set key v (Some t) s) = delivered s
           else pendingKeys (store_set key v (Some t) s) = pendingKeys s
              \<and> delivered (store_set key v (Some t) s)
                  = delivered s @ [Notify key (fanout key s)])"
proof -
  have eq: "store_set key v (Some t) s = store_remove key s"
    using assms by (simp add: store_set_def store_remove_def setInternal_def makeEntry_def)
  have "map_of (AList.delete key (mirror s)) key = None"
    by (simp add: delete_conv')
  then show ?thesis
    unfolding eq
    by (auto simp: store_remove_def setInternal_def invalidate_defs emit_defs)
qed

theorem set_nonpositive_ttl_is_remove_witness:
  "numNonPositive (Fin 0)
   \<and> store_set ''k'' (Num 2) (Some (Fin 0)) (store_set ''k'' (Num 1) None demo_store)
       = store_remove ''k'' (store_set ''k'' (Num 1) None demo_store)
   \<and> mirror (store_set ''k'' (Num 2) (Some (Fin 0)) (store_set ''k'' (Num 1) None demo_store)) = []"
proof -
  have h: "numNonPositive (Fin 0)" by (simp add: numNonPositive_def)
  show ?thesis
    using set_nonpositive_ttl_is_remove
            [OF h, of "''k''" "Num 2" "store_set ''k'' (Num 1) None demo_store"]
    by (simp add: eval_defs)
qed

text \<open>
  C8. \<open>get\<close> on an entry whose positive TTL has elapsed returns \<open>undefined\<close> and changes
  exactly four things: the key leaves the mirror, a driver removal is issued, the all-keys
  cache is invalidated, and so is every prefix cache whose prefix the key starts with. No
  notification is delivered or queued; the other mirror entries and the listener
  registries are as before.
\<close>

theorem get_expired_evicts_silently:
  assumes "map_of (mirror s) key = Some e" and "ttlMs e = Some (Fin T)" and "0 < T"
    and "of_int (clock s - createdAt e) \<ge> T"
  shows "fst (store_get key s) = Undefined
       \<and> snd (store_get key s)
           = s\<lparr>mirror := AList.delete key (mirror s),
               driverLog := driverLog s @ [DrvRemove key],
               allKeysCache := (allKeysCache s)\<lparr>valid := False\<rparr>,
               prefixKeysCache :=
                 map (\<lambda>(p, c). (p, if startsWith key p then c\<lparr>valid := False\<rparr> else c))
                     (prefixKeysCache s)\<rparr>
       \<and> map_of (mirror (snd (store_get key s))) key = None
       \<and> (\<forall>k. k \<noteq> key \<longrightarrow> map_of (mirror (snd (store_get key s))) k = map_of (mirror s) k)
       \<and> \<not> valid (allKeysCache (snd (store_get key s)))
       \<and> (\<forall>(p, c) \<in> set (prefixKeysCache (snd (store_get key s))).
             startsWith key p \<longrightarrow> \<not> valid c)
       \<and> delivered (snd (store_get key s)) = delivered s
       \<and> pendingKeys (snd (store_get key s)) = pendingKeys s
       \<and> pendingReadyEmit (snd (store_get key s)) = pendingReadyEmit s
       \<and> keyListeners (snd (store_get key s)) = keyListeners s
       \<and> prefixListeners (snd (store_get key s)) = prefixListeners s
       \<and> allListeners (snd (store_get key s)) = allListeners s
       \<and> readyListeners (snd (store_get key s)) = readyListeners s"
proof -
  have dead: "\<not> isAlive (clock s) (Some e)"
    using assms by (simp add: isAlive_def numFalsy_def numLess_def)
  have res: "store_get key s = (Undefined, dropKey key s)"
    using assms(1) dead by (simp add: store_get_def getEntry_def pruneIfDead_def)
  have gone: "map_of (AList.delete key (mirror s)) key = None"
    by (simp add: delete_conv')
  show ?thesis
    unfolding res using gone
    by (auto simp: dropKey_def invalidate_defs)
qed

theorem get_expired_evicts_silently_witness:
  "fst (store_get ''k'' ((store_set ''k'' (Num 1) (Some (Fin 100)) demo_store)\<lparr>clock := 100\<rparr>)) = Undefined
   \<and> mirror (snd (store_get ''k'' ((store_set ''k'' (Num 1) (Some (Fin 100)) demo_store)\<lparr>clock := 100\<rparr>)))
       = []
   \<and> delivered (snd (store_get ''k'' ((store_set ''k'' (Num 1) (Some (Fin 100)) demo_store)\<lparr>clock := 100\<rparr>)))
       = delivered (store_set ''k'' (Num 1) (Some (Fin 100)) demo_store)"
proof -
  let ?s = "(store_set ''k'' (Num 1) (Some (Fin 100)) demo_store)\<lparr>clock := 100\<rparr>"
  let ?e = "\<lparr>evalue = Num 1, createdAt = 0, ttlMs = Some (Fin 100)\<rparr>"
  have h1: "map_of (mirror ?s) ''k'' = Some ?e" by (simp add: eval_defs)
  have h2: "ttlMs ?e = Some (Fin 100)" by simp
  have h3: "(0::rat) < 100" by simp
  have h4: "of_int (clock ?s - createdAt ?e) \<ge> (100::rat)" by (simp add: eval_defs)
  show ?thesis
    using get_expired_evicts_silently [OF h1 h2 h3 h4]
    by (simp add: eval_defs)
qed

text \<open>
  C4 (as amended). \<open>has\<close> and \<open>get\<close> leave the same state behind (the same lazy eviction),
  and \<open>has(key)\<close> is true exactly when the key has a live entry. That agrees with
  \<open>get(key) !== undefined\<close> whenever the stored value is not itself \<open>undefined\<close>.
\<close>

theorem has_matches_live_entry:
  "snd (store_has key s) = snd (store_get key s)
   \<and> (fst (store_has key s) \<longleftrightarrow> fst (getEntry key s) \<noteq> None)
   \<and> (fst (store_has key s)
        \<longleftrightarrow> (\<exists>e. map_of (mirror s) key = Some e \<and> isAlive (clock s) (Some e)))
   \<and> (fst (store_get key s) \<noteq> Undefined \<longrightarrow> fst (store_has key s))
   \<and> ((\<forall>e. map_of (mirror s) key = Some e \<longrightarrow> evalue e \<noteq> Undefined)
        \<longrightarrow> (fst (store_has key s) \<longleftrightarrow> fst (store_get key s) \<noteq> Undefined))"
  by (auto simp: store_has_def store_get_def getEntry_def pruneIfDead_def
           split: option.splits prod.splits if_splits)

theorem has_matches_live_entry_witness:
  "fst (store_has ''k'' (store_set ''k'' (Num 1) None demo_store))
   \<and> fst (store_get ''k'' (store_set ''k'' (Num 1) None demo_store)) = Num 1"
  using has_matches_live_entry [of "''k''" "store_set ''k'' (Num 1) None demo_store"]
  by (simp add: demo_store_def demo_defs store_set_def makeEntry_def setInternal_def
        invalidate_defs emit_defs store_get_def getEntry_def pruneIfDead_def isAlive_def)

text \<open>
  C4 as stated fails for a stored \<open>undefined\<close>: after \<open>set("k", undefined)\<close>, \<open>has("k")\<close> is
  true while \<open>get("k")\<close> is \<open>undefined\<close>.
\<close>

theorem has_undefined_value_counterexample:
  "\<not> (fst (store_has ''k'' (store_set ''k'' Undefined None demo_store))
        \<longleftrightarrow> fst (store_get ''k'' (store_set ''k'' Undefined None demo_store)) \<noteq> Undefined)"
  by (simp add: demo_store_def demo_defs store_set_def makeEntry_def setInternal_def
        invalidate_defs emit_defs store_get_def store_has_def getEntry_def pruneIfDead_def
        isAlive_def)

text \<open>
  C6 (as amended). \<open>touch\<close> leaves the state alone when the key is absent; on a dead entry it
  does what \<open>get\<close> does (evicts it, no notification). On a live entry it calls \<open>setInternal\<close>,
  as \<open>set\<close> does, with the same value, \<open>createdAt = now()\<close> and the TTL kept (argument
  omitted or \<open>undefined\<close>, which the function cannot tell apart) or overwritten (argument
  supplied): the key is removed when that TTL is \<open><= 0\<close>, and otherwise the entry is
  replaced by the new one.
\<close>

theorem touch_keeps_or_overwrites_ttl:
  "(map_of (mirror s) key = None \<longrightarrow> store_touch key t s = s)
   \<and> (\<forall>e. map_of (mirror s) key = Some e \<and> \<not> isAlive (clock s) (Some e) \<longrightarrow>
          store_touch key t s = snd (store_get key s)
        \<and> store_touch key t s = dropKey key s
        \<and> delivered (store_touch key t s) = delivered s
        \<and> pendingKeys (store_touch key t s) = pendingKeys s)
   \<and> (\<forall>e. map_of (mirror s) key = Some e \<and> isAlive (clock s) (Some e) \<longrightarrow>
          store_touch key t s
            = setInternal key
                (Some \<lparr>evalue = evalue e, createdAt = clock s,
                       ttlMs = (case t of None \<Rightarrow> ttlMs e | Some t' \<Rightarrow> Some t')\<rparr>) s
        \<and> store_touch key t s
            = store_set key (evalue e) (case t of None \<Rightarrow> ttlMs e | Some t' \<Rightarrow> Some t') s
        \<and> (\<not> ttlRemoves (case t of None \<Rightarrow> ttlMs e | Some t' \<Rightarrow> Some t') \<longrightarrow>
              map_of (mirror (store_touch key t s)) key
                = Some \<lparr>evalue = evalue e, createdAt = clock s,
                        ttlMs = (case t of None \<Rightarrow> ttlMs e | Some t' \<Rightarrow> Some t')\<rparr>
            \<and> driverLog (store_touch key t s)
                = driverLog s
                  @ [DrvSet key \<lparr>evalue = evalue e, createdAt = clock s,
                                 ttlMs = (case t of None \<Rightarrow> ttlMs e | Some t' \<Rightarrow> Some t')\<rparr>])
        \<and> (ttlRemoves (case t of None \<Rightarrow> ttlMs e | Some t' \<Rightarrow> Some t') \<longrightarrow>
              store_touch key t s = store_remove key s
            \<and> map_of (mirror (store_touch key t s)) key = None))"
proof (intro conjI allI impI)
  assume "map_of (mirror s) key = None"
  then show "store_touch key t s = s"
    by (simp add: store_touch_def getEntry_def)
next
  fix e assume a: "map_of (mirror s) key = Some e \<and> \<not> isAlive (clock s) (Some e)"
  then have t: "store_touch key t s = dropKey key s"
    by (simp add: store_touch_def getEntry_def pruneIfDead_def)
  show "store_touch key t s = dropKey key s" by (rule t)
  show "store_touch key t s = snd (store_get key s)"
    using a by (simp add: t store_get_def getEntry_def pruneIfDead_def)
  show "delivered (store_touch key t s) = delivered s"
    by (simp add: t dropKey_def invalidate_defs)
  show "pendingKeys (store_touch key t s) = pendingKeys s"
    by (simp add: t dropKey_def invalidate_defs)
next
  fix e assume a: "map_of (mirror s) key = Some e \<and> isAlive (clock s) (Some e)"
  let ?t' = "case t of None \<Rightarrow> ttlMs e | Some t' \<Rightarrow> Some t'"
  let ?ne = "\<lparr>evalue = evalue e, createdAt = clock s, ttlMs = ?t'\<rparr>"
  show t: "store_touch key t s = setInternal key (Some ?ne) s"
    using a by (simp add: store_touch_def getEntry_def pruneIfDead_def)
  show "store_touch key t s = store_set key (evalue e) ?t' s"
    by (simp add: t store_set_def makeEntry_def)
  have stored: "map_of (AList.update key ?ne (mirror s)) key = Some ?ne"
    by (simp add: update_conv')
  have gone: "map_of (AList.delete key (mirror s)) key = None"
    by (simp add: delete_conv')
  { assume keep: "\<not> ttlRemoves ?t'"
    then show "map_of (mirror (store_touch key t s)) key = Some ?ne"
      unfolding t using stored
      by (cases ?t') (auto simp: setInternal_def invalidate_defs emit_defs ttlRemoves_def)
    from keep show "driverLog (store_touch key t s) = driverLog s @ [DrvSet key ?ne]"
      unfolding t
      by (cases ?t') (auto simp: setInternal_def invalidate_defs emit_defs ttlRemoves_def) }
  { assume neg: "ttlRemoves ?t'"
    then show "store_touch key t s = store_remove key s"
      unfolding t
      by (cases ?t') (auto simp: setInternal_def store_remove_def ttlRemoves_def)
    from neg show "map_of (mirror (store_touch key t s)) key = None"
      unfolding t using gone
      by (cases ?t') (auto simp: setInternal_def invalidate_defs emit_defs ttlRemoves_def) }
qed

theorem touch_keeps_or_overwrites_ttl_witness:
  "map_of (mirror (store_touch ''k'' (Some (Fin 50)) (store_set ''k'' (Num 1) (Some (Fin 100)) demo_store))) ''k''
     = Some \<lparr>evalue = Num 1, createdAt = 0, ttlMs = Some (Fin 50)\<rparr>
   \<and> map_of (mirror (store_touch ''k'' None (store_set ''k'' (Num 1) (Some (Fin 100)) demo_store))) ''k''
     = Some \<lparr>evalue = Num 1, createdAt = 0, ttlMs = Some (Fin 100)\<rparr>
   \<and> map_of (mirror (store_touch ''k'' (Some NaN) (store_set ''k'' (Num 1) (Some (Fin 100)) demo_store))) ''k''
     = Some \<lparr>evalue = Num 1, createdAt = 0, ttlMs = Some NaN\<rparr>"
  using touch_keeps_or_overwrites_ttl
          [of "store_set ''k'' (Num 1) (Some (Fin 100)) demo_store" "''k''" "Some (Fin 50)"]
        touch_keeps_or_overwrites_ttl
          [of "store_set ''k'' (Num 1) (Some (Fin 100)) demo_store" "''k''" None]
        touch_keeps_or_overwrites_ttl
          [of "store_set ''k'' (Num 1) (Some (Fin 100)) demo_store" "''k''" "Some NaN"]
  by (simp add: eval_defs ttlRemoves_def)

text \<open>
  What overwriting makes possible: a \<open>NaN\<close> or \<open>Infinity\<close> passes the test \<open>ttlMs <= 0\<close>, is
  stored, and \<open>isAlive\<close> then accepts the entry at every time.
\<close>

lemma touch_nan_or_infinity_never_expires:
  assumes "map_of (mirror s) key = Some e" and "isAlive (clock s) (Some e)"
    and "t = NaN \<or> t = PosInf"
  shows "map_of (mirror (store_touch key (Some t) s)) key
           = Some \<lparr>evalue = evalue e, createdAt = clock s, ttlMs = Some t\<rparr>
       \<and> isAlive now (Some \<lparr>evalue = evalue e, createdAt = clock s, ttlMs = Some t\<rparr>)"
proof -
  let ?ne = "\<lparr>evalue = evalue e, createdAt = clock s, ttlMs = Some t\<rparr>"
  have "store_touch key (Some t) s = setInternal key (Some ?ne) s"
    using assms(1,2) by (simp add: store_touch_def getEntry_def pruneIfDead_def)
  moreover have "map_of (AList.update key ?ne (mirror s)) key = Some ?ne"
    by (simp add: update_conv')
  ultimately show ?thesis
    using assms(3)
    by (auto simp: setInternal_def invalidate_defs emit_defs isAlive_def numFalsy_def
          numLess_def numNonPositive_def)
qed

text \<open>
  C6 as stated fails: on a live entry with TTL 100, \<open>touch("k", 0)\<close> removes the key
  instead of overwriting the TTL, \<open>touch("k", undefined)\<close> keeps the TTL instead of clearing
  it, and on a dead entry \<open>touch\<close> changes the state.
\<close>

theorem touch_undefined_keeps_ttl_counterexample:
  "map_of (mirror (store_touch ''k'' (Some (Fin 0)) (store_set ''k'' (Num 1) (Some (Fin 100)) demo_store))) ''k''
     = None
   \<and> map_option ttlMs
       (map_of (mirror (store_touch ''k'' None (store_set ''k'' (Num 1) (Some (Fin 100)) demo_store))) ''k'')
     = Some (Some (Fin 100))
   \<and> store_touch ''k'' None ((store_set ''k'' (Num 1) (Some (Fin 100)) demo_store)\<lparr>clock := 200\<rparr>)
     \<noteq> (store_set ''k'' (Num 1) (Some (Fin 100)) demo_store)\<lparr>clock := 200\<rparr>"
proof -
  have "mirror (store_touch ''k'' None ((store_set ''k'' (Num 1) (Some (Fin 100)) demo_store)\<lparr>clock := 200\<rparr>))
        \<noteq> mirror ((store_set ''k'' (Num 1) (Some (Fin 100)) demo_store)\<lparr>clock := 200\<rparr>)"
    by (simp add: eval_defs)
  then have "store_touch ''k'' None ((store_set ''k'' (Num 1) (Some (Fin 100)) demo_store)\<lparr>clock := 200\<rparr>)
        \<noteq> (store_set ''k'' (Num 1) (Some (Fin 100)) demo_store)\<lparr>clock := 200\<rparr>"
    by metis
  then show ?thesis
    by (simp add: eval_defs)
qed

section \<open>Key-list caches\<close>

lemma startsWith_Nil [simp]: "startsWith k []"
  by (simp add: startsWith_def)

lemma skipsKey_iff: "skipsKey prefix k \<longleftrightarrow> \<not> matchesPrefix prefix k"
  by (auto simp: skipsKey_def matchesPrefix_def split: option.splits)

lemma isAlive_None [simp]: "\<not> isAlive now None"
  by (simp add: isAlive_def)

lemma shrinks_refl [simp]: "shrinks s s"
  unfolding shrinks_def by auto

lemma shrinks_trans: "shrinks s s1 \<Longrightarrow> shrinks s1 s2 \<Longrightarrow> shrinks s s2"
  unfolding shrinks_def by (auto; fastforce)

lemma shrinks_invalidate: "shrinks s (invalidateKeyCachesForMutation k s)"
  unfolding shrinks_def by (auto simp: invalidate_defs)

lemma set_delete_subset: "set (AList.delete k al) \<subseteq> set al"
  by (auto simp: AList.delete_eq)

lemma shrinks_dropKey: "shrinks s (dropKey k s)"
  unfolding shrinks_def
  using set_delete_subset [of k "mirror s"]
  by (auto simp: dropKey_def invalidate_defs distinct_delete)

lemma shrinks_evict: "shrinks s (evict k s)"
  by (simp add: evict_def shrinks_invalidate shrinks_dropKey)

lemma list_ok_shrink:
  assumes "list_ok s p c" and "set (mirror s') \<subseteq> set (mirror s)"
    and "keys c' = keys c" and "valid c' \<longrightarrow> valid c"
  shows "list_ok s' p c'"
  using assms unfolding list_ok_def by (auto simp: subset_iff)

lemma cache_inv_shrinks:
  assumes "cache_inv s" and "shrinks s s'"
  shows "cache_inv s'"
proof -
  have sub: "set (mirror s') \<subseteq> set (mirror s)"
    using assms(2) unfolding shrinks_def by blast
  have d: "distinct (map fst (mirror s'))"
    using assms unfolding shrinks_def cache_inv_def by blast
  have a: "list_ok s' [] (allKeysCache s')"
    using assms sub unfolding cache_inv_def shrinks_def
    by (auto intro: list_ok_shrink)
  have p: "\<forall>(p, c') \<in> set (prefixKeysCache s'). list_ok s' p c'"
  proof (clarify)
    fix p c' assume "(p, c') \<in> set (prefixKeysCache s')"
    then obtain c where "(p, c) \<in> set (prefixKeysCache s)" "keys c' = keys c"
        "valid c' \<longrightarrow> valid c"
      using assms(2) unfolding shrinks_def by blast
    moreover from this have "list_ok s p c" using assms(1) unfolding cache_inv_def by auto
    ultimately show "list_ok s' p c'" using sub by (auto intro: list_ok_shrink)
  qed
  show ?thesis unfolding cache_inv_def using d a p by blast
qed

subsection \<open>Frame facts\<close>

lemma clock_invalidate [simp]: "clock (invalidateKeyCachesForMutation k s) = clock s"
  by (simp add: invalidate_defs)

lemma mirror_invalidate [simp]: "mirror (invalidateKeyCachesForMutation k s) = mirror s"
  by (simp add: invalidate_defs)

lemma clock_dropKey [simp]: "clock (dropKey k s) = clock s"
  by (simp add: dropKey_def)

lemma mirror_dropKey [simp]: "mirror (dropKey k s) = AList.delete k (mirror s)"
  by (simp add: dropKey_def)

lemma clock_evict [simp]: "clock (evict k s) = clock s"
  by (simp add: evict_def)

lemma mirror_evict [simp]: "mirror (evict k s) = AList.delete k (mirror s)"
  by (auto simp: evict_def map_of_eq_None_iff)

lemma liveKey_evict: "\<not> liveKey s k \<Longrightarrow> liveKey (evict k s) = liveKey s"
  by (auto simp: liveKey_def fun_eq_iff delete_conv')

lemma clock_fold_evict [simp]: "clock (fold evict ds s) = clock s"
  by (induction ds arbitrary: s) auto

lemma mirror_fold_evict: "mirror (fold evict ds s) = fold AList.delete ds (mirror s)"
  by (induction ds arbitrary: s) auto

lemma shrinks_fold_evict: "shrinks s (fold evict ds s)"
proof (induction ds arbitrary: s)
  case Nil
  show ?case by simp
next
  case (Cons d ds)
  show ?case using shrinks_trans [OF shrinks_evict Cons.IH] by simp
qed

lemma keys_fold_delete: "fst ` set (fold AList.delete ds al) = fst ` set al - set ds"
proof (induction ds arbitrary: al)
  case Nil
  show ?case by simp
next
  case (Cons d ds)
  have "fst ` set (AList.delete d al) = fst ` set al - {d}"
    by (force simp: AList.delete_eq)
  then show ?case using Cons.IH [of "AList.delete d al"] by auto
qed

lemma map_of_fold_delete:
  "map_of (fold AList.delete ds al) k = (if k \<in> set ds then None else map_of al k)"
  by (induction ds arbitrary: al) (auto simp: delete_conv')

subsection \<open>The two scans\<close>

lemma pruneLoop_eq:
  "pruneLoop ks kept s
     = (kept @ filter (liveKey s) ks, fold evict (filter (\<lambda>k. \<not> liveKey s k) ks) s)"
proof (induction ks arbitrary: kept s)
  case Nil
  show ?case by simp
next
  case (Cons k ks)
  show ?case
  proof (cases "liveKey s k")
    case True
    then obtain e where e: "map_of (mirror s) k = Some e" "isAlive (clock s) (Some e)"
      by (cases "map_of (mirror s) k") (auto simp: liveKey_def)
    with True Cons.IH [of "kept @ [k]" s] show ?thesis by simp
  next
    case False
    have step: "pruneLoop (k # ks) kept s = pruneLoop ks kept (evict k s)"
      using False by (auto simp: evict_def liveKey_def split: option.splits)
    show ?thesis
      unfolding step using False Cons.IH [of kept "evict k s"]
      by (simp add: liveKey_evict)
  qed
qed

lemma computeKeysLoop_eq:
  "computeKeysLoop prefix es out s
     = (out @ map fst (filter (\<lambda>(k, e). matchesPrefix prefix k \<and> isAlive (clock s) (Some e)) es),
        fold dropKey
          (map fst (filter (\<lambda>(k, e). matchesPrefix prefix k \<and> \<not> isAlive (clock s) (Some e)) es))
          s)"
proof (induction es arbitrary: out s)
  case Nil
  show ?case by simp
next
  case (Cons x es)
  obtain k e where x: "x = (k, e)" by (cases x)
  show ?case
    unfolding x using Cons.IH [of out s] Cons.IH [of out "dropKey k s"] Cons.IH [of "out @ [k]" s]
    by (simp add: skipsKey_iff)
qed

lemma clock_fold_dropKey [simp]: "clock (fold dropKey ds s) = clock s"
  by (induction ds arbitrary: s) auto

lemma mirror_fold_dropKey: "mirror (fold dropKey ds s) = fold AList.delete ds (mirror s)"
  by (induction ds arbitrary: s) auto

lemma shrinks_fold_dropKey: "shrinks s (fold dropKey ds s)"
proof (induction ds arbitrary: s)
  case Nil
  show ?case by simp
next
  case (Cons d ds)
  show ?case using shrinks_trans [OF shrinks_dropKey Cons.IH] by simp
qed

lemma set_update_cases:
  "x \<in> set (AList.update k v al) \<Longrightarrow> x = (k, v) \<or> x \<in> set al"
  by (induction al) (auto split: if_splits)

lemma set_map_entry_cases:
  "x \<in> set (AList.map_entry k f al) \<Longrightarrow> x \<in> set al \<or> (\<exists>v. (k, v) \<in> set al \<and> x = (k, f v))"
  by (induction al) (auto split: if_splits)

lemma cache_inv_set_all:
  "cache_inv s \<Longrightarrow> list_ok s [] c \<Longrightarrow> cache_inv (s\<lparr>allKeysCache := c\<rparr>)"
  by (simp add: cache_inv_def list_ok_def)

lemma cache_inv_set_prefix:
  "cache_inv s \<Longrightarrow> (\<forall>(p, c) \<in> set pc. list_ok s p c) \<Longrightarrow> cache_inv (s\<lparr>prefixKeysCache := pc\<rparr>)"
  by (simp add: cache_inv_def list_ok_def)

lemma list_ok_invalid [simp]: "\<not> valid c \<Longrightarrow> list_ok s p c"
  by (simp add: list_ok_def)

lemma list_ok_pruned:
  assumes "list_ok s p c" and "valid c"
    and "mirror s' = fold AList.delete (filter (\<lambda>k. \<not> liveKey s k) (keys c)) (mirror s)"
    and "keys c' = filter (liveKey s) (keys c)"
  shows "list_ok s' p c'"
proof -
  have "k \<in> set (keys c')" if "k \<in> fst ` set (mirror s')" "startsWith k p" for k
  proof -
    from that(1) have "k \<in> fst ` set (mirror s)" "k \<notin> set (filter (\<lambda>k. \<not> liveKey s k) (keys c))"
      unfolding assms(3) keys_fold_delete by auto
    moreover from this that(2) have "k \<in> set (keys c)"
      using assms(1,2) unfolding list_ok_def by blast
    ultimately show ?thesis unfolding assms(4) by auto
  qed
  moreover have "\<forall>k \<in> set (keys c'). startsWith k p" "distinct (keys c')"
    using assms(1,2) unfolding assms(4) list_ok_def by auto
  ultimately show ?thesis unfolding list_ok_def by blast
qed

lemma computeKeysForPrefix_eq:
  "computeKeysForPrefix prefix s = (liveEntries prefix s, fold dropKey (deadEntries prefix s) s)"
  by (simp add: computeKeysForPrefix_def computeKeysLoop_eq liveEntries_def deadEntries_def)

lemma set_liveEntries:
  assumes "distinct (map fst (mirror s))"
  shows "set (liveEntries prefix s) = {k. liveKey s k \<and> matchesPrefix prefix k}"
proof -
  have m: "(k, e) \<in> set (mirror s) \<longleftrightarrow> map_of (mirror s) k = Some e" for k e
    using assms by simp
  have "k \<in> set (liveEntries prefix s) \<longleftrightarrow> liveKey s k \<and> matchesPrefix prefix k" for k
  proof (cases "map_of (mirror s) k")
    case None
    then have "\<And>e. (k, e) \<notin> set (mirror s)" using m by simp
    then show ?thesis
      unfolding liveEntries_def liveKey_def None by (auto simp: image_iff)
  next
    case (Some e)
    then have "\<And>e'. (k, e') \<in> set (mirror s) \<longleftrightarrow> e' = e" using m by auto
    then show ?thesis
      unfolding liveEntries_def liveKey_def Some by (auto simp: image_iff)
  qed
  then show ?thesis by blast
qed

lemma distinct_liveEntries:
  "distinct (map fst (mirror s)) \<Longrightarrow> distinct (liveEntries prefix s)"
  unfolding liveEntries_def by (rule distinct_map_filter)

lemma list_ok_computed:
  assumes "mirror s' = fold AList.delete (deadEntries prefix s) (mirror s)"
    and "keys c' = liveEntries prefix s"
    and "distinct (map fst (mirror s))"
    and "\<And>k. matchesPrefix prefix k \<longleftrightarrow> startsWith k p"
  shows "list_ok s' p c'"
proof -
  have "k \<in> set (keys c')" if "k \<in> fst ` set (mirror s')" "startsWith k p" for k
  proof -
    from that(1) obtain e where e: "(k, e) \<in> set (mirror s)" and nd: "k \<notin> set (deadEntries prefix s)"
      unfolding assms(1) keys_fold_delete by auto
    from nd e that(2) have "isAlive (clock s) (Some e)"
      unfolding deadEntries_def using assms(4) by force
    with e that(2) show ?thesis
      unfolding assms(2) liveEntries_def using assms(4) by force
  qed
  moreover have "\<forall>k \<in> set (keys c'). startsWith k p"
    unfolding assms(2) liveEntries_def using assms(4) by auto
  moreover have "distinct (keys c')"
    unfolding assms(2) using assms(3) by (rule distinct_liveEntries)
  ultimately show ?thesis unfolding list_ok_def by blast
qed

lemma matchesPrefix_falsy: "falsy prefix \<Longrightarrow> matchesPrefix prefix k"
  by (auto simp: falsy_def matchesPrefix_def split: option.splits)

lemma matchesPrefix_None [simp]: "matchesPrefix None k"
  by (simp add: matchesPrefix_def)

lemma getCachedKeys_all_invalid:
  assumes "falsy prefix" and "\<not> valid (allKeysCache s)"
  shows "getCachedKeys prefix s
         = (liveEntries None s,
            (fold dropKey (deadEntries None s) s)
              \<lparr>allKeysCache := \<lparr>keys = liveEntries None s, valid = True\<rparr>\<rparr>)"
  using assms by (simp add: getCachedKeys_def computeKeysForPrefix_eq)

lemma getCachedKeys_all_valid:
  assumes "falsy prefix" and "valid (allKeysCache s)"
  shows "getCachedKeys prefix s
         = (filter (liveKey s) (keys (allKeysCache s)),
            (fold evict (filter (\<lambda>k. \<not> liveKey s k) (keys (allKeysCache s))) s)
              \<lparr>allKeysCache :=
                 (allKeysCache (fold evict (filter (\<lambda>k. \<not> liveKey s k) (keys (allKeysCache s))) s))
                   \<lparr>keys := filter (liveKey s) (keys (allKeysCache s))\<rparr>\<rparr>)"
  using assms by (simp add: getCachedKeys_def pruneListInPlace_def pruneLoop_eq)

lemma getCachedKeys_prefix_new:
  assumes "p \<noteq> []" and "map_of (prefixKeysCache s) p = None"
  shows "getCachedKeys (Some p) s
         = (liveEntries (Some p) s,
            (fold dropKey (deadEntries (Some p) s)
               (s\<lparr>prefixKeysCache := prefixKeysCache s @ [(p, \<lparr>keys = [], valid = False\<rparr>)]\<rparr>))
              \<lparr>prefixKeysCache :=
                 AList.update p \<lparr>keys = liveEntries (Some p) s, valid = True\<rparr>
                   (prefixKeysCache
                      (fold dropKey (deadEntries (Some p) s)
                         (s\<lparr>prefixKeysCache :=
                              prefixKeysCache s @ [(p, \<lparr>keys = [], valid = False\<rparr>)]\<rparr>)))\<rparr>)"
  using assms
  by (simp add: getCachedKeys_def falsy_def computeKeysForPrefix_eq liveEntries_def
        deadEntries_def)

lemma getCachedKeys_prefix_invalid:
  assumes "p \<noteq> []" and "map_of (prefixKeysCache s) p = Some c" and "\<not> valid c"
  shows "getCachedKeys (Some p) s
         = (liveEntries (Some p) s,
            (fold dropKey (deadEntries (Some p) s) s)
              \<lparr>prefixKeysCache :=
                 AList.update p \<lparr>keys = liveEntries (Some p) s, valid = True\<rparr>
                   (prefixKeysCache (fold dropKey (deadEntries (Some p) s) s))\<rparr>)"
  using assms by (simp add: getCachedKeys_def falsy_def computeKeysForPrefix_eq)

lemma getCachedKeys_prefix_valid:
  assumes "p \<noteq> []" and "map_of (prefixKeysCache s) p = Some c" and "valid c"
  shows "getCachedKeys (Some p) s
         = (filter (liveKey s) (keys c),
            (fold evict (filter (\<lambda>k. \<not> liveKey s k) (keys c)) s)
              \<lparr>prefixKeysCache :=
                 AList.map_entry p (\<lambda>c'. c'\<lparr>keys := filter (liveKey s) (keys c)\<rparr>)
                   (prefixKeysCache (fold evict (filter (\<lambda>k. \<not> liveKey s k) (keys c)) s))\<rparr>)"
  using assms by (simp add: getCachedKeys_def falsy_def pruneListInPlace_def pruneLoop_eq)

lemma liveKey_in_mirror: "liveKey s k \<Longrightarrow> k \<in> fst ` set (mirror s)"
  by (cases "map_of (mirror s) k") (auto simp: liveKey_def dest: map_of_SomeD intro: rev_image_eqI)

lemma pruned_set:
  assumes "list_ok s p c" and "valid c"
  shows "set (filter (liveKey s) (keys c)) = {k. liveKey s k \<and> startsWith k p}"
  using assms unfolding list_ok_def by (auto dest: liveKey_in_mirror)

lemma getCachedKeys_result:
  assumes "cache_inv s"
  shows "set (fst (getCachedKeys prefix s)) = {k. liveKey s k \<and> matchesPrefix prefix k}
       \<and> distinct (fst (getCachedKeys prefix s))"
proof (cases "falsy prefix")
  case True
  have d: "distinct (map fst (mirror s))" and a: "list_ok s [] (allKeysCache s)"
    using assms unfolding cache_inv_def by auto
  show ?thesis
  proof (cases "valid (allKeysCache s)")
    case False
    show ?thesis
      unfolding getCachedKeys_all_invalid [OF True False]
      using set_liveEntries [OF d, of None] distinct_liveEntries [OF d, of None] True
      by (auto simp: matchesPrefix_falsy)
  next
    case v: True
    have "distinct (keys (allKeysCache s))" using a v unfolding list_ok_def by simp
    then show ?thesis
      unfolding getCachedKeys_all_valid [OF True v]
      using pruned_set [OF a v] True
      by (auto simp: matchesPrefix_falsy)
  qed
next
  case False
  then obtain p where p: "prefix = Some p" "p \<noteq> []"
    by (cases prefix) (auto simp: falsy_def)
  have d: "distinct (map fst (mirror s))"
    using assms unfolding cache_inv_def by auto
  show ?thesis
  proof (cases "map_of (prefixKeysCache s) p")
    case None
    show ?thesis
      unfolding p getCachedKeys_prefix_new [OF p(2) None]
      using set_liveEntries [OF d, of "Some p"] distinct_liveEntries [OF d, of "Some p"]
      by simp
  next
    case (Some c)
    then have "(p, c) \<in> set (prefixKeysCache s)" by (rule map_of_SomeD)
    then have ok: "list_ok s p c" using assms unfolding cache_inv_def by auto
    show ?thesis
    proof (cases "valid c")
      case False
      show ?thesis
        unfolding p getCachedKeys_prefix_invalid [OF p(2) Some False]
        using set_liveEntries [OF d, of "Some p"] distinct_liveEntries [OF d, of "Some p"]
        by simp
    next
      case v: True
      have "distinct (keys c)" using ok v unfolding list_ok_def by simp
      then show ?thesis
        unfolding p getCachedKeys_prefix_valid [OF p(2) Some v]
        using pruned_set [OF ok v]
        by (auto simp: matchesPrefix_def)
    qed
  qed
qed

lemma getCachedKeys_inv:
  assumes "cache_inv s"
  shows "cache_inv (snd (getCachedKeys prefix s))"
proof (cases "falsy prefix")
  case True
  have d: "distinct (map fst (mirror s))" and a: "list_ok s [] (allKeysCache s)"
    using assms unfolding cache_inv_def by auto
  show ?thesis
  proof (cases "valid (allKeysCache s)")
    case False
    let ?s1 = "fold dropKey (deadEntries None s) s"
    have i1: "cache_inv ?s1"
      using assms shrinks_fold_dropKey by (rule cache_inv_shrinks)
    have "list_ok ?s1 [] \<lparr>keys = liveEntries None s, valid = True\<rparr>"
      by (rule list_ok_computed [where prefix = None and s = s])
         (simp_all add: mirror_fold_dropKey d)
    with i1 show ?thesis
      unfolding getCachedKeys_all_invalid [OF True False]
      by (simp add: cache_inv_set_all)
  next
    case v: True
    let ?s1 = "fold evict (filter (\<lambda>k. \<not> liveKey s k) (keys (allKeysCache s))) s"
    have i1: "cache_inv ?s1"
      using assms shrinks_fold_evict by (rule cache_inv_shrinks)
    have "list_ok ?s1 [] ((allKeysCache ?s1)\<lparr>keys := filter (liveKey s) (keys (allKeysCache s))\<rparr>)"
      by (rule list_ok_pruned [OF a v]) (simp_all add: mirror_fold_evict)
    with i1 show ?thesis
      unfolding getCachedKeys_all_valid [OF True v]
      by (simp add: cache_inv_set_all)
  qed
next
  case False
  then obtain p where p: "prefix = Some p" "p \<noteq> []"
    by (cases prefix) (auto simp: falsy_def)
  have d: "distinct (map fst (mirror s))"
    using assms unfolding cache_inv_def by auto
  have mp: "\<And>k. matchesPrefix (Some p) k \<longleftrightarrow> startsWith k p"
    by (simp add: matchesPrefix_def)
  show ?thesis
  proof (cases "map_of (prefixKeysCache s) p")
    case None
    let ?s0 = "s\<lparr>prefixKeysCache := prefixKeysCache s @ [(p, \<lparr>keys = [], valid = False\<rparr>)]\<rparr>"
    let ?s1 = "fold dropKey (deadEntries (Some p) s) ?s0"
    have i0: "cache_inv ?s0"
      using assms by (auto simp: cache_inv_def list_ok_def)
    have i1: "cache_inv ?s1"
      using i0 shrinks_fold_dropKey by (rule cache_inv_shrinks)
    have de: "deadEntries (Some p) ?s0 = deadEntries (Some p) s"
      by (simp add: deadEntries_def)
    have new: "list_ok ?s1 p \<lparr>keys = liveEntries (Some p) s, valid = True\<rparr>"
      by (rule list_ok_computed [where prefix = "Some p" and s = s])
         (simp_all add: mirror_fold_dropKey d mp)
    have "\<forall>(q, c) \<in> set (AList.update p \<lparr>keys = liveEntries (Some p) s, valid = True\<rparr>
                               (prefixKeysCache ?s1)). list_ok ?s1 q c"
      using i1 new unfolding cache_inv_def by (auto dest!: set_update_cases)
    with i1 show ?thesis
      unfolding p getCachedKeys_prefix_new [OF p(2) None]
      by (simp add: cache_inv_set_prefix)
  next
    case (Some c)
    then have "(p, c) \<in> set (prefixKeysCache s)" by (rule map_of_SomeD)
    then have ok: "list_ok s p c" using assms unfolding cache_inv_def by auto
    show ?thesis
    proof (cases "valid c")
      case False
      let ?s1 = "fold dropKey (deadEntries (Some p) s) s"
      have i1: "cache_inv ?s1"
        using assms shrinks_fold_dropKey by (rule cache_inv_shrinks)
      have new: "list_ok ?s1 p \<lparr>keys = liveEntries (Some p) s, valid = True\<rparr>"
        by (rule list_ok_computed [where prefix = "Some p" and s = s])
           (simp_all add: mirror_fold_dropKey d mp)
      have "\<forall>(q, c) \<in> set (AList.update p \<lparr>keys = liveEntries (Some p) s, valid = True\<rparr>
                                 (prefixKeysCache ?s1)). list_ok ?s1 q c"
        using i1 new unfolding cache_inv_def by (auto dest!: set_update_cases)
      with i1 show ?thesis
        unfolding p getCachedKeys_prefix_invalid [OF p(2) Some False]
        by (simp add: cache_inv_set_prefix)
    next
      case v: True
      let ?s1 = "fold evict (filter (\<lambda>k. \<not> liveKey s k) (keys c)) s"
      have i1: "cache_inv ?s1"
        using assms shrinks_fold_evict by (rule cache_inv_shrinks)
      have new: "list_ok ?s1 p (c'\<lparr>keys := filter (liveKey s) (keys c)\<rparr>)" for c'
        by (rule list_ok_pruned [OF ok v]) (simp_all add: mirror_fold_evict)
      have "\<forall>(q, d) \<in> set (AList.map_entry p (\<lambda>c'. c'\<lparr>keys := filter (liveKey s) (keys c)\<rparr>)
                                 (prefixKeysCache ?s1)). list_ok ?s1 q d"
        using i1 new unfolding cache_inv_def by (auto dest!: set_map_entry_cases)
      with i1 show ?thesis
        unfolding p getCachedKeys_prefix_valid [OF p(2) Some v]
        by (simp add: cache_inv_set_prefix)
    qed
  qed
qed

lemma shrinks_trans' [trans]: "shrinks s s1 \<Longrightarrow> shrinks s1 s2 \<Longrightarrow> shrinks s s2"
  by (rule shrinks_trans)

lemma shrinks_same:
  "mirror s' = mirror s \<Longrightarrow> allKeysCache s' = allKeysCache s
   \<Longrightarrow> prefixKeysCache s' = prefixKeysCache s \<Longrightarrow> shrinks s s'"
  unfolding shrinks_def by auto

lemma shrinks_queueEmitKey: "shrinks s (queueEmitKey k s)"
  by (rule shrinks_same) (simp_all add: emit_defs)

lemma shrinks_fold_queueEmitKey: "shrinks s (fold queueEmitKey ks s)"
proof (induction ks arbitrary: s)
  case Nil
  show ?case by simp
next
  case (Cons k ks)
  show ?case using shrinks_trans [OF shrinks_queueEmitKey Cons.IH] by simp
qed

lemma shrinks_fold_emitNow: "shrinks s (fold emitNow ks s)"
proof (induction ks arbitrary: s)
  case Nil
  show ?case by simp
next
  case (Cons k ks)
  have "shrinks s (emitNow k s)" by (rule shrinks_same) (simp_all add: emitNow_def)
  from shrinks_trans [OF this Cons.IH] show ?case by simp
qed

lemma shrinks_queueEmitReady: "shrinks s (queueEmitReady s)"
  by (rule shrinks_same) (simp_all add: queueEmitReady_def emitReadyNow_def)

lemma shrinks_getEntry: "shrinks s (snd (getEntry k s))"
  by (auto simp: getEntry_def pruneIfDead_def shrinks_dropKey split: option.splits)

lemma shrinks_store_get: "shrinks s (snd (store_get k s))"
  using shrinks_getEntry [of s k]
  by (auto simp: store_get_def split: prod.splits option.splits)

lemma shrinks_store_has: "shrinks s (snd (store_has k s))"
  using shrinks_getEntry [of s k]
  by (auto simp: store_has_def split: prod.splits option.splits)

lemma shrinks_store_meta: "shrinks s (snd (store_meta k s))"
  using shrinks_getEntry [of s k]
  by (auto simp: store_meta_def split: prod.splits)

lemma setInternal_remove: "setInternal key None s = queueEmitKey key (dropKey key s)"
  by (simp add: setInternal_def dropKey_def)

lemma setInternal_cases:
  "setInternal key (Some e) s =
     (if ttlRemoves (ttlMs e) then queueEmitKey key (dropKey key s)
      else queueEmitKey key
             (invalidateKeyCachesForMutation key
                (s\<lparr>mirror := AList.update key e (mirror s),
                   driverLog := driverLog s @ [DrvSet key e]\<rparr>)))"
  by (auto simp: setInternal_def dropKey_def ttlRemoves_def split: option.splits)

lemma list_ok_insert:
  assumes "list_ok s p c" and "fst ` set (mirror s') = {key} \<union> fst ` set (mirror s)"
    and "\<not> startsWith key p"
  shows "list_ok s' p c"
  using assms unfolding list_ok_def by auto

lemma cache_inv_store:
  assumes "cache_inv s"
  shows "cache_inv (invalidateKeyCachesForMutation key
                      (s\<lparr>mirror := AList.update key e (mirror s),
                         driverLog := driverLog s @ [DrvSet key e]\<rparr>))"
    (is "cache_inv ?s'")
proof -
  have m: "mirror ?s' = AList.update key e (mirror s)"
    by (simp add: invalidate_defs)
  have d: "distinct (map fst (mirror ?s'))"
    using assms unfolding m cache_inv_def by (simp add: distinct_update)
  have k: "fst ` set (mirror ?s') = {key} \<union> fst ` set (mirror s)"
    unfolding m by (rule dom_update)
  have a: "list_ok ?s' [] (allKeysCache ?s')"
    by (simp add: invalidate_defs)
  have pc: "prefixKeysCache ?s'
      = map (\<lambda>(prefix, c). (prefix, if startsWith key prefix then c\<lparr>valid := False\<rparr> else c))
          (prefixKeysCache s)"
    by (simp add: invalidate_defs)
  have p: "\<forall>(p, c') \<in> set (prefixKeysCache ?s'). list_ok ?s' p c'"
  proof clarify
    fix p c' assume "(p, c') \<in> set (prefixKeysCache ?s')"
    then obtain c where c: "(p, c) \<in> set (prefixKeysCache s)"
        and c': "c' = (if startsWith key p then c\<lparr>valid := False\<rparr> else c)"
      unfolding pc by auto
    show "list_ok ?s' p c'"
    proof (cases "startsWith key p")
      case True
      then show ?thesis unfolding c' by simp
    next
      case False
      have "list_ok s p c" using assms c unfolding cache_inv_def by auto
      from list_ok_insert [OF this k False] show ?thesis unfolding c' using False by simp
    qed
  qed
  show ?thesis unfolding cache_inv_def using d a p by blast
qed

lemma cache_inv_setInternal:
  assumes "cache_inv s"
  shows "cache_inv (setInternal key entry s)"
proof (cases entry)
  case None
  show ?thesis
    unfolding None setInternal_remove
    using assms shrinks_trans [OF shrinks_dropKey shrinks_queueEmitKey]
    by (rule cache_inv_shrinks)
next
  case (Some e)
  show ?thesis
  proof (cases "ttlRemoves (ttlMs e)")
    case True
    show ?thesis
      unfolding Some setInternal_cases using True
      using cache_inv_shrinks [OF assms shrinks_trans [OF shrinks_dropKey shrinks_queueEmitKey]]
      by simp
  next
    case False
    show ?thesis
      unfolding Some setInternal_cases using False
      using cache_inv_shrinks [OF cache_inv_store [OF assms] shrinks_queueEmitKey]
      by simp
  qed
qed

lemma cache_inv_store_set: "cache_inv s \<Longrightarrow> cache_inv (store_set k v t s)"
  by (simp add: store_set_def cache_inv_setInternal)

lemma cache_inv_store_remove: "cache_inv s \<Longrightarrow> cache_inv (store_remove k s)"
  by (simp add: store_remove_def cache_inv_setInternal)

lemma cache_inv_store_get: "cache_inv s \<Longrightarrow> cache_inv (snd (store_get k s))"
  by (erule cache_inv_shrinks) (rule shrinks_store_get)

lemma cache_inv_store_update: "cache_inv s \<Longrightarrow> cache_inv (snd (store_update k f t s))"
  using cache_inv_store_get [of s k]
  by (auto simp: store_update_def cache_inv_store_set split: prod.splits)

lemma cache_inv_store_touch: "cache_inv s \<Longrightarrow> cache_inv (store_touch k t s)"
  using cache_inv_shrinks [OF _ shrinks_getEntry, of s k]
  by (auto simp: store_touch_def cache_inv_setInternal split: prod.splits option.splits)

lemma cache_inv_store_keys: "cache_inv s \<Longrightarrow> cache_inv (snd (store_keys p s))"
  by (simp add: store_keys_def getCachedKeys_inv)

lemma distinct_fold_delete:
  "distinct (map fst al) \<Longrightarrow> distinct (map fst (fold AList.delete ks al))"
  by (induction ks arbitrary: al) (auto simp: distinct_delete)

lemma set_fold_delete_subset: "set (fold AList.delete ks al) \<subseteq> set al"
proof (induction ks arbitrary: al)
  case Nil
  show ?case by simp
next
  case (Cons k ks)
  show ?case using Cons.IH [of "AList.delete k al"] set_delete_subset [of k al] by auto
qed

lemma shrinks_delete_many: "shrinks s (s\<lparr>mirror := fold AList.delete ks (mirror s)\<rparr>)"
  unfolding shrinks_def using set_fold_delete_subset [of ks "mirror s"]
  by (auto simp: distinct_fold_delete)

lemma shrinks_removeFromDriver: "shrinks s (removeFromDriver ks s)"
  by (rule shrinks_same) (simp_all add: removeFromDriver_def)

lemma shrinks_invalidate_everything:
  "shrinks s (s\<lparr>allKeysCache := (allKeysCache s)\<lparr>valid := False\<rparr>,
                prefixKeysCache := map (\<lambda>(p, c). (p, c\<lparr>valid := False\<rparr>)) (prefixKeysCache s)\<rparr>)"
  unfolding shrinks_def by auto

lemma shrinks_invalidateAllKeysCache: "shrinks s (invalidateAllKeysCache s)"
  unfolding shrinks_def by (auto simp: invalidateAllKeysCache_def)

lemma shrinks_invalidatePrefixCache: "shrinks s (invalidatePrefixCache p s)"
  unfolding shrinks_def
  by (auto simp: invalidatePrefixCache_def dest!: set_map_entry_cases)

lemma shrinks_invalidatePrefixCachesForKey: "shrinks s (invalidatePrefixCachesForKey k s)"
  unfolding shrinks_def by (auto simp: invalidatePrefixCachesForKey_def)

lemma shrinks_fold_invalidatePrefixCachesForKey:
  "shrinks s (fold invalidatePrefixCachesForKey ks s)"
proof (induction ks arbitrary: s)
  case Nil
  show ?case by simp
next
  case (Cons k ks)
  show ?case using shrinks_trans [OF shrinks_invalidatePrefixCachesForKey Cons.IH] by simp
qed

lemma cache_inv_store_clear:
  assumes "cache_inv s"
  shows "cache_inv (store_clear prefix s)"
proof (cases "falsy prefix")
  case True
  obtain ks s1 where k: "store_keys None s = (ks, s1)" by (cases "store_keys None s")
  have i1: "cache_inv s1" using cache_inv_store_keys [OF assms, of None] k by simp
  let ?s2 = "removeFromDriver ks s1"
  let ?s3 = "?s2\<lparr>mirror := fold AList.delete ks (mirror ?s2)\<rparr>"
  let ?s4 = "?s3\<lparr>allKeysCache := (allKeysCache ?s3)\<lparr>valid := False\<rparr>,
                  prefixKeysCache := map (\<lambda>(p, c). (p, c\<lparr>valid := False\<rparr>)) (prefixKeysCache ?s3)\<rparr>"
  have "shrinks s1 ?s2" by (rule shrinks_removeFromDriver)
  also have "shrinks ?s2 ?s3" by (rule shrinks_delete_many)
  also have "shrinks ?s3 ?s4" by (rule shrinks_invalidate_everything)
  also have "shrinks ?s4 (fold queueEmitKey ks ?s4)" by (rule shrinks_fold_queueEmitKey)
  finally have "shrinks s1 (fold queueEmitKey ks ?s4)" .
  with i1 have "cache_inv (fold queueEmitKey ks ?s4)" by (rule cache_inv_shrinks)
  then show ?thesis
    using True k by (simp add: store_clear_def Let_def)
next
  case False
  then obtain p where p: "prefix = Some p" by (cases prefix) (auto simp: falsy_def)
  obtain ks s1 where k: "store_keys (Some p) s = (ks, s1)" by (cases "store_keys (Some p) s")
  have i1: "cache_inv s1" using cache_inv_store_keys [OF assms, of "Some p"] k by simp
  let ?s2 = "s1\<lparr>mirror := fold AList.delete ks (mirror s1)\<rparr>"
  let ?s3 = "if hasClearPrefix ?s2 then ?s2\<lparr>driverLog := driverLog ?s2 @ [DrvClearPrefix p]\<rparr>
             else removeFromDriver ks ?s2"
  let ?s4 = "invalidatePrefixCache p (invalidateAllKeysCache ?s3)"
  let ?s5 = "fold invalidatePrefixCachesForKey ks ?s4"
  have s23: "shrinks ?s2 ?s3"
    by (rule shrinks_same) (simp_all add: removeFromDriver_def)
  have "shrinks s1 ?s2" by (rule shrinks_delete_many)
  also note s23
  also have "shrinks ?s3 (invalidateAllKeysCache ?s3)" by (rule shrinks_invalidateAllKeysCache)
  also have "shrinks (invalidateAllKeysCache ?s3) ?s4" by (rule shrinks_invalidatePrefixCache)
  also have "shrinks ?s4 ?s5" by (rule shrinks_fold_invalidatePrefixCachesForKey)
  also have "shrinks ?s5 (fold queueEmitKey ks ?s5)" by (rule shrinks_fold_queueEmitKey)
  finally have "shrinks s1 (fold queueEmitKey ks ?s5)" .
  with i1 have "cache_inv (fold queueEmitKey ks ?s5)" by (rule cache_inv_shrinks)
  then show ?thesis
    using False k unfolding p by (simp add: store_clear_def Let_def)
qed

lemma shrinks_subscriptions:
  "shrinks s (subscribeKey k cb s)" "shrinks s (unsubscribeKey k cb s)"
  "shrinks s (subscribePrefix p cb s)" "shrinks s (unsubscribePrefix p cb s)"
  "shrinks s (subscribeAll cb s)" "shrinks s (unsubscribeAll cb s)"
  "shrinks s (subscribeReady cb s)" "shrinks s (unsubscribeReady cb s)"
  by (rule shrinks_same;
      simp add: subscribeKey_def unsubscribeKey_def subscribePrefix_def unsubscribePrefix_def
        subscribeAll_def unsubscribeAll_def subscribeReady_def unsubscribeReady_def
        split: option.splits)+

lemma shrinks_getOrSetAsync: "shrinks s (snd (getOrSetAsync k f opts s))"
proof -
  have g: "shrinks s (snd (store_get k s))" by (rule shrinks_store_get)
  have "shrinks s' (snd (getOrSetAsync k f opts s))"
    if "s' = s \<or> s' = snd (store_get k s)"
       "mirror (snd (getOrSetAsync k f opts s)) = mirror s'"
       "allKeysCache (snd (getOrSetAsync k f opts s)) = allKeysCache s'"
       "prefixKeysCache (snd (getOrSetAsync k f opts s)) = prefixKeysCache s'" for s'
    using that by (intro shrinks_same) auto
  then show ?thesis
    using g
    by (cases "store_get k s")
       (auto simp: getOrSetAsync_def Let_def shrinks_same split: option.splits if_splits
             intro!: shrinks_trans [OF g] shrinks_same)
qed

lemma shrinks_batch_enter: "shrinks s (s\<lparr>batchDepth := d\<rparr>)"
  by (rule shrinks_same) simp_all

lemma shrinks_batch_finally: "shrinks s (batch_finally s)"
proof -
  let ?s1 = "s\<lparr>batchDepth := batchDepth s - 1\<rparr>"
  let ?s2 = "fold emitNow (pendingKeys ?s1) (?s1\<lparr>pendingKeys := []\<rparr>)"
  have a: "shrinks s ?s1" by (rule shrinks_same) simp_all
  have "shrinks ?s1 (?s1\<lparr>pendingKeys := []\<rparr>)" by (rule shrinks_same) simp_all
  also have "shrinks (?s1\<lparr>pendingKeys := []\<rparr>) ?s2" by (rule shrinks_fold_emitNow)
  finally have b: "shrinks ?s1 ?s2" .
  have c: "shrinks ?s2 (emitReadyNow (?s2\<lparr>pendingReadyEmit := False\<rparr>))"
    by (rule shrinks_same) (simp_all add: emitReadyNow_def)
  show ?thesis
  proof (cases "batchDepth ?s1 = 0")
    case False
    then have "batch_finally s = ?s1" by (simp add: batch_finally_def Let_def)
    with a show ?thesis by simp
  next
    case z: True
    show ?thesis
    proof (cases "pendingReadyEmit ?s2")
      case False
      with z have "batch_finally s = ?s2" by (simp add: batch_finally_def Let_def)
      with shrinks_trans [OF a b] show ?thesis by simp
    next
      case True
      with z have "batch_finally s = emitReadyNow (?s2\<lparr>pendingReadyEmit := False\<rparr>)"
        by (simp add: batch_finally_def Let_def)
      with shrinks_trans [OF shrinks_trans [OF a b] c] show ?thesis by simp
    qed
  qed
qed

lemma shrinks_tick: "shrinks s (s\<lparr>clock := t\<rparr>)"
  by (rule shrinks_same) simp_all

lemma cache_inv_exec_run:
  "(cache_inv s \<longrightarrow> cache_inv (snd (exec c s)))"
  "(cache_inv s \<longrightarrow> cache_inv (snd (run cs s)))"
proof (induction c s and cs s rule: exec_run.induct)
  case (20 body s)
  show ?case
  proof
    assume "cache_inv s"
    then have i0: "cache_inv (s\<lparr>batchDepth := batchDepth s + 1\<rparr>)"
      using shrinks_batch_enter by (rule cache_inv_shrinks)
    obtain t s1 where r: "run body (s\<lparr>batchDepth := batchDepth s + 1\<rparr>) = (t, s1)"
      by (cases "run body (s\<lparr>batchDepth := batchDepth s + 1\<rparr>)")
    with 20 i0 have "cache_inv s1" by simp
    then have "cache_inv (batch_finally s1)"
      using shrinks_batch_finally by (rule cache_inv_shrinks)
    then show "cache_inv (snd (exec (CBatch body) s))"
      using r by simp
  qed
next
  case (24 c cs s)
  show ?case
  proof
    assume i: "cache_inv s"
    obtain t s1 where e: "exec c s = (t, s1)" by (cases "exec c s")
    with 24(1) i have i1: "cache_inv s1" by simp
    show "cache_inv (snd (run (c # cs) s))"
    proof (cases t)
      case True
      with e i1 show ?thesis by simp
    next
      case False
      with 24(2) [OF e [symmetric]] e i1 show ?thesis by simp
    qed
  qed
qed (auto simp: cache_inv_store_get cache_inv_store_set cache_inv_store_update
          cache_inv_store_remove cache_inv_store_keys cache_inv_store_clear
          cache_inv_store_touch store_emit_def
        intro: cache_inv_shrinks shrinks_store_has shrinks_store_meta shrinks_getOrSetAsync
          shrinks_subscriptions shrinks_queueEmitKey shrinks_tick)

lemma cache_inv_same:
  "cache_inv s \<Longrightarrow> mirror s' = mirror s \<Longrightarrow> allKeysCache s' = allKeysCache s
   \<Longrightarrow> prefixKeysCache s' = prefixKeysCache s \<Longrightarrow> cache_inv s'"
  by (simp add: cache_inv_def list_ok_def)

lemma cache_inv_fetchSettled: "cache_inv s \<Longrightarrow> cache_inv (fetchSettled p out s)"
proof -
  assume i: "cache_inv s"
  show ?thesis
  proof (cases "map_of (suspended s) p")
    case None
    with i show ?thesis by (simp add: fetchSettled_def)
  next
    case (Some kt)
    obtain key ttl where kt: "kt = (key, ttl)" by (cases kt)
    let ?s1 = "s\<lparr>suspended := AList.delete p (suspended s)\<rparr>"
    let ?s2 = "case out of Resolved v \<Rightarrow> store_set key v ttl ?s1 | Rejected e \<Rightarrow> ?s1"
    have i1: "cache_inv ?s1" by (rule cache_inv_same [OF i]) simp_all
    have i2: "cache_inv ?s2" using i1 by (cases out) (simp_all add: cache_inv_store_set)
    have "cache_inv (?s2\<lparr>inFlight := AList.delete key (inFlight ?s2),
                         promises := promises ?s2 @ [(p, out)]\<rparr>)"
      by (rule cache_inv_same [OF i2]) simp_all
    then show ?thesis using Some kt by (simp add: fetchSettled_def Let_def)
  qed
qed

lemma cache_inv_hydrationFailed: "cache_inv s \<Longrightarrow> cache_inv (hydrationFailed e s)"
  unfolding hydrationFailed_def
  by (erule cache_inv_shrinks) (rule shrinks_trans [OF _ shrinks_queueEmitReady], rule shrinks_same, simp_all)

lemma cache_inv_keysListed: "cache_inv s \<Longrightarrow> cache_inv (keysListed res s)"
proof (cases res)
  case (Inl e)
  assume "cache_inv s"
  with Inl show ?thesis by (simp add: keysListed_def cache_inv_hydrationFailed)
next
  case (Inr ks)
  assume i: "cache_inv s"
  have "cache_inv (s\<lparr>driverLog := d, hydrationPhase := AwaitingRows\<rparr>)" for d
    by (rule cache_inv_same [OF i]) simp_all
  with Inr i show ?thesis by (simp add: keysListed_def)
qed

lemma distinct_hydrateRows:
  "distinct (map fst (mirror s)) \<Longrightarrow> distinct (map fst (mirror (snd (hydrateRows rows td s))))"
  by (induction rows td s rule: hydrateRows.induct) (auto simp: distinct_update)

lemma cache_inv_all_invalid:
  "distinct (map fst (mirror s)) \<Longrightarrow> \<not> valid (allKeysCache s)
   \<Longrightarrow> \<forall>(p, c) \<in> set (prefixKeysCache s). \<not> valid c \<Longrightarrow> cache_inv s"
  unfolding cache_inv_def by auto

lemma mirror_batch_finally [simp]: "mirror (batch_finally s) = mirror s"
proof -
  have "set (mirror (batch_finally s)) \<subseteq> set (mirror s)" for s
    using shrinks_batch_finally [of s] unfolding shrinks_def by blast
  have m: "mirror (fold emitNow ks s) = mirror s" for ks s
    by (induction ks arbitrary: s) (auto simp: emitNow_def)
  show ?thesis
    by (simp add: batch_finally_def Let_def m emitReadyNow_def)
qed

lemma cache_inv_rowsFetched: "cache_inv s \<Longrightarrow> cache_inv (rowsFetched res s)"
proof -
  assume i: "cache_inv s"
  show ?thesis
  proof (cases "hydrationPhase s \<noteq> AwaitingRows")
    case True
    with i show ?thesis by (simp add: rowsFetched_def)
  next
    case False
    show ?thesis
    proof (cases res)
      case (Inl e)
      with i False show ?thesis by (simp add: rowsFetched_def cache_inv_hydrationFailed)
    next
      case (Inr rows)
      obtain td s0 where h: "hydrateRows rows [] (s\<lparr>batchDepth := batchDepth s + 1\<rparr>) = (td, s0)"
        by (cases "hydrateRows rows [] (s\<lparr>batchDepth := batchDepth s + 1\<rparr>)")
      have "distinct (map fst (mirror (s\<lparr>batchDepth := batchDepth s + 1\<rparr>)))"
        using i by (simp add: cache_inv_def)
      from distinct_hydrateRows [OF this, of rows "[]"] h
      have d0: "distinct (map fst (mirror s0))" by simp
      let ?s1 = "batch_finally s0"
      let ?s2 = "if cleanupExpiredOnHydrate ?s1 \<and> td \<noteq> [] then removeFromDriver td ?s1 else ?s1"
      let ?s3 = "?s2\<lparr>allKeysCache := (allKeysCache ?s2)\<lparr>valid := False\<rparr>,
                      prefixKeysCache :=
                        map (\<lambda>(p, c). (p, c\<lparr>valid := False\<rparr>)) (prefixKeysCache ?s2)\<rparr>"
      let ?s4 = "?s3\<lparr>ready := True, readyP := settle (Resolved Undefined) (readyP ?s3),
                      hydrationPhase := HydrationFinished\<rparr>"
      have "mirror ?s2 = mirror s0" by (simp add: removeFromDriver_def)
      then have "distinct (map fst (mirror ?s4))" using d0 by simp
      then have "cache_inv ?s4" by (rule cache_inv_all_invalid) auto
      then have "cache_inv (queueEmitReady ?s4)"
        using shrinks_queueEmitReady by (rule cache_inv_shrinks)
      then show ?thesis
        using False Inr h by (simp add: rowsFetched_def store_batch_def Let_def)
    qed
  qed
qed

lemma cache_inv_createCache: "cache_inv (createCache opts now)"
  by (simp add: createCache_def emptyState_def cache_inv_def list_ok_def queueEmitReady_def
        emitReadyNow_def)

lemma cache_inv_step: "cache_inv s \<Longrightarrow> cache_inv (step ev s)"
  by (cases ev) (simp_all add: cache_inv_exec_run cache_inv_fetchSettled cache_inv_keysListed
        cache_inv_rowsFetched)

lemma cache_inv_run_events: "cache_inv s \<Longrightarrow> cache_inv (run_events evs s)"
  unfolding run_events_def by (induction evs arbitrary: s) (simp_all add: cache_inv_step)

text \<open>
  C1. After any sequence of events from construction (calls of every store method,
  among them \<open>set\<close>, \<open>remove\<close>, \<open>clear\<close> and earlier \<open>keys\<close>, batches, time passing, fetch and
  hydration continuations), \<open>keys(prefix)\<close> returns, without repetition, exactly the keys
  that have a live mirror entry and start with the prefix. When the list it consults is
  already valid, the result is that cached list with the keys that are no longer live
  removed, the others in their cached order.
\<close>

theorem keys_cache_consistent:
  "set (fst (store_keys prefix (run_events evs (createCache opts now))))
     = {k. liveKey (run_events evs (createCache opts now)) k \<and> matchesPrefix prefix k}
   \<and> distinct (fst (store_keys prefix (run_events evs (createCache opts now))))
   \<and> (falsy prefix \<and> valid (allKeysCache (run_events evs (createCache opts now))) \<longrightarrow>
        fst (store_keys prefix (run_events evs (createCache opts now)))
          = filter (liveKey (run_events evs (createCache opts now)))
              (keys (allKeysCache (run_events evs (createCache opts now)))))
   \<and> (\<forall>p c. prefix = Some p \<and> p \<noteq> []
            \<and> map_of (prefixKeysCache (run_events evs (createCache opts now))) p = Some c
            \<and> valid c \<longrightarrow>
        fst (store_keys prefix (run_events evs (createCache opts now)))
          = filter (liveKey (run_events evs (createCache opts now))) (keys c))"
proof -
  let ?s = "run_events evs (createCache opts now)"
  have i: "cache_inv ?s" by (rule cache_inv_run_events) (rule cache_inv_createCache)
  from getCachedKeys_result [OF i, of prefix] show ?thesis
    by (auto simp: store_keys_def getCachedKeys_all_valid getCachedKeys_prefix_valid)
qed

lemma demo_run:
  "run_events demo_events demo_store
   = \<lparr>clock = 20, hasGetMany = False, hasRemoveMany = False,
    hasClearPrefix = False, cleanupExpiredOnHydrate = True,
    mirror =
      [(''a'', \<lparr>evalue = Num 1, createdAt = 0, ttlMs = None\<rparr>),
       (''ab'', \<lparr>evalue = Num 2, createdAt = 0, ttlMs = Some (Fin 10)\<rparr>)],
    keyListeners = [], prefixListeners = [], allListeners = [],
    readyListeners = [], batchDepth = 0, pendingKeys = [],
    pendingReadyEmit = False, ready = True,
    readyP = Some (Resolved Undefined), inFlight = [],
    allKeysCache = \<lparr>keys = [], valid = False\<rparr>,
    prefixKeysCache = [(''a'', \<lparr>keys = [''a'', ''ab''], valid = True\<rparr>)],
    driverLog =
      [DrvSet ''a'' \<lparr>evalue = Num 1, createdAt = 0, ttlMs = None\<rparr>,
       DrvSet ''ab'' \<lparr>evalue = Num 2, createdAt = 0, ttlMs = Some (Fin 10)\<rparr>],
    delivered = [NotifyReady [], Notify ''a'' [], Notify ''ab'' []],
    fetcherLog = [], promises = [], suspended = [], nextPromise = 0,
    hydrationPhase = NoHydration\<rparr>"
  by (simp add: demo_events_def run_events_def eval_defs store_keys_def getCachedKeys_def
        falsy_def computeKeysForPrefix_def skipsKey_def startsWith_def)

theorem keys_cache_consistent_witness:
  "map_of (prefixKeysCache (run_events demo_events (createCache demo_opts 0))) ''a''
     = Some \<lparr>keys = [''a'', ''ab''], valid = True\<rparr>
   \<and> fst (store_keys (Some ''a'') (run_events demo_events (createCache demo_opts 0)))
     = filter (liveKey (run_events demo_events (createCache demo_opts 0))) [''a'', ''ab'']
   \<and> filter (liveKey (run_events demo_events (createCache demo_opts 0))) [''a'', ''ab''] = [''a'']"
proof -
  have c: "map_of (prefixKeysCache (run_events demo_events (createCache demo_opts 0))) ''a''
     = Some \<lparr>keys = [''a'', ''ab''], valid = True\<rparr>"
    using demo_run by (simp add: demo_store_def)
  have l: "filter (liveKey (run_events demo_events (createCache demo_opts 0))) [''a'', ''ab''] = [''a'']"
    using demo_run by (simp add: demo_store_def liveKey_def isAlive_def numFalsy_def numLess_def)
  show ?thesis
    using keys_cache_consistent [of "Some ''a''" demo_events demo_opts 0] c l
    by simp
qed

section \<open>Batching\<close>

lemma quiet_refl [simp]: "quiet s s"
  by (simp add: quiet_def)

lemma quiet_trans [trans]: "quiet s s1 \<Longrightarrow> quiet s1 s2 \<Longrightarrow> quiet s s2"
  by (auto simp: quiet_def)

lemma quiet_same:
  "batchDepth s' = batchDepth s \<Longrightarrow> pendingReadyEmit s' = pendingReadyEmit s
   \<Longrightarrow> delivered s' = delivered s \<Longrightarrow> pendingKeys s' = pendingKeys s \<Longrightarrow> quiet s s'"
  by (simp add: quiet_def)

lemma quiet_fold:
  assumes "\<And>x s. quiet s (f x s)"
  shows "quiet s (fold f xs s)"
proof (induction xs arbitrary: s)
  case Nil
  show ?case by simp
next
  case (Cons x xs)
  show ?case using quiet_trans [OF assms Cons.IH] by simp
qed

lemma quiet_queue_ok: "quiet s s' \<Longrightarrow> queue_ok s \<Longrightarrow> queue_ok s'"
  by (auto simp: quiet_def queue_ok_def)

lemma distinct_set_add: "distinct xs \<Longrightarrow> distinct (set_add x xs)"
  by (simp add: set_add_def)

lemma quiet_queueEmitKey: "quiet s (queueEmitKey k s)"
  by (simp add: quiet_def queueEmitKey_def emitNow_def distinct_set_add)

lemma quiet_invalidate: "quiet s (invalidateKeyCachesForMutation k s)"
  by (rule quiet_same) (simp_all add: invalidate_defs)

lemma quiet_dropKey: "quiet s (dropKey k s)"
  by (rule quiet_same) (simp_all add: dropKey_def invalidate_defs)

lemma quiet_evict: "quiet s (evict k s)"
  by (simp add: evict_def quiet_invalidate quiet_dropKey)

lemma quiet_getEntry: "quiet s (snd (getEntry k s))"
  by (auto simp: getEntry_def pruneIfDead_def quiet_dropKey split: option.splits)

lemma quiet_store_get: "quiet s (snd (store_get k s))"
  using quiet_getEntry [of s k] by (auto simp: store_get_def split: prod.splits option.splits)

lemma quiet_store_has: "quiet s (snd (store_has k s))"
  using quiet_getEntry [of s k] by (auto simp: store_has_def split: prod.splits option.splits)

lemma quiet_store_meta: "quiet s (snd (store_meta k s))"
  using quiet_getEntry [of s k] by (auto simp: store_meta_def split: prod.splits)

lemma quiet_setInternal: "quiet s (setInternal key entry s)"
proof -
  have a: "quiet s (queueEmitKey key (dropKey key s))"
    by (rule quiet_trans [OF quiet_dropKey quiet_queueEmitKey])
  have "quiet s (invalidateKeyCachesForMutation key
                  (s\<lparr>mirror := AList.update key e (mirror s),
                     driverLog := driverLog s @ [DrvSet key e]\<rparr>))" for e
    by (rule quiet_same) (simp_all add: invalidate_defs)
  from quiet_trans [OF this quiet_queueEmitKey] a show ?thesis
    by (cases entry) (simp_all add: setInternal_remove setInternal_cases)
qed

lemma quiet_store_set: "quiet s (store_set k v t s)"
  by (simp add: store_set_def quiet_setInternal)

lemma quiet_store_remove: "quiet s (store_remove k s)"
  by (simp add: store_remove_def quiet_setInternal)

lemma quiet_store_update: "quiet s (snd (store_update k f t s))"
proof -
  obtain v s1 where g: "store_get k s = (v, s1)" by (cases "store_get k s")
  then have "quiet s s1" using quiet_store_get [of s k] by simp
  then have "quiet s (store_set k (f v) t s1)" using quiet_store_set by (rule quiet_trans)
  then show ?thesis using g by (simp add: store_update_def)
qed

lemma quiet_store_touch: "quiet s (store_touch k t s)"
proof -
  obtain e s1 where g: "getEntry k s = (e, s1)" by (cases "getEntry k s")
  then have q: "quiet s s1" using quiet_getEntry [of s k] by simp
  then have "quiet s (setInternal k entry s1)" for entry
    using quiet_setInternal by (rule quiet_trans)
  with q g show ?thesis by (cases e) (simp_all add: store_touch_def)
qed

lemma quiet_getCachedKeys: "quiet s (snd (getCachedKeys prefix s))"
proof -
  have d: "quiet s0 (fold dropKey ds s0)" for ds s0
    by (rule quiet_fold) (rule quiet_dropKey)
  have e: "quiet s0 (fold evict ds s0)" for ds s0
    by (rule quiet_fold) (rule quiet_evict)
  have a: "quiet s0 (s0\<lparr>allKeysCache := c\<rparr>)" for s0 c
    by (rule quiet_same) simp_all
  have p: "quiet s0 (s0\<lparr>prefixKeysCache := pc\<rparr>)" for s0 pc
    by (rule quiet_same) simp_all
  show ?thesis
  proof (cases "falsy prefix")
    case True
    show ?thesis
    proof (cases "valid (allKeysCache s)")
      case False
      show ?thesis
        unfolding getCachedKeys_all_invalid [OF True False]
        using quiet_trans [OF d a] by simp
    next
      case v: True
      show ?thesis
        unfolding getCachedKeys_all_valid [OF True v]
        using quiet_trans [OF e a] by simp
    qed
  next
    case False
    then obtain q where q: "prefix = Some q" "q \<noteq> []"
      by (cases prefix) (auto simp: falsy_def)
    show ?thesis
    proof (cases "map_of (prefixKeysCache s) q")
      case None
      show ?thesis
        unfolding q getCachedKeys_prefix_new [OF q(2) None]
        using quiet_trans [OF quiet_trans [OF p d] p] by simp
    next
      case (Some c)
      show ?thesis
      proof (cases "valid c")
        case False
        show ?thesis
          unfolding q getCachedKeys_prefix_invalid [OF q(2) Some False]
          using quiet_trans [OF d p] by simp
      next
        case v: True
        show ?thesis
          unfolding q getCachedKeys_prefix_valid [OF q(2) Some v]
          using quiet_trans [OF e p] by simp
      qed
    qed
  qed
qed

lemma quiet_store_keys: "quiet s (snd (store_keys prefix s))"
  by (simp add: store_keys_def quiet_getCachedKeys)

lemma quiet_store_clear: "quiet s (store_clear prefix s)"
proof (cases "falsy prefix")
  case True
  obtain ks s1 where k: "store_keys None s = (ks, s1)" by (cases "store_keys None s")
  let ?s2 = "removeFromDriver ks s1"
  let ?s3 = "?s2\<lparr>mirror := fold AList.delete ks (mirror ?s2)\<rparr>"
  let ?s4 = "?s3\<lparr>allKeysCache := (allKeysCache ?s3)\<lparr>valid := False\<rparr>,
                  prefixKeysCache := map (\<lambda>(p, c). (p, c\<lparr>valid := False\<rparr>)) (prefixKeysCache ?s3)\<rparr>"
  have "quiet s s1" using quiet_store_keys [of s None] k by simp
  also have "quiet s1 ?s4" by (rule quiet_same) (simp_all add: removeFromDriver_def)
  also have "quiet ?s4 (fold queueEmitKey ks ?s4)" by (rule quiet_fold) (rule quiet_queueEmitKey)
  finally show ?thesis
    using True k by (simp add: store_clear_def Let_def)
next
  case False
  then obtain p where p: "prefix = Some p" by (cases prefix) (auto simp: falsy_def)
  obtain ks s1 where k: "store_keys (Some p) s = (ks, s1)" by (cases "store_keys (Some p) s")
  let ?s2 = "s1\<lparr>mirror := fold AList.delete ks (mirror s1)\<rparr>"
  let ?s3 = "if hasClearPrefix ?s2 then ?s2\<lparr>driverLog := driverLog ?s2 @ [DrvClearPrefix p]\<rparr>
             else removeFromDriver ks ?s2"
  let ?s4 = "invalidatePrefixCache p (invalidateAllKeysCache ?s3)"
  let ?s5 = "fold invalidatePrefixCachesForKey ks ?s4"
  have "quiet s s1" using quiet_store_keys [of s "Some p"] k by simp
  also have "quiet s1 ?s4"
    by (rule quiet_same)
       (simp_all add: removeFromDriver_def invalidatePrefixCache_def invalidateAllKeysCache_def)
  also have "quiet ?s4 ?s5"
    by (rule quiet_fold, rule quiet_same) (simp_all add: invalidatePrefixCachesForKey_def)
  also have "quiet ?s5 (fold queueEmitKey ks ?s5)" by (rule quiet_fold) (rule quiet_queueEmitKey)
  finally show ?thesis
    using False k unfolding p by (simp add: store_clear_def Let_def)
qed

lemma quiet_subscriptions:
  "quiet s (subscribeKey k cb s)" "quiet s (unsubscribeKey k cb s)"
  "quiet s (subscribePrefix p cb s)" "quiet s (unsubscribePrefix p cb s)"
  "quiet s (subscribeAll cb s)" "quiet s (unsubscribeAll cb s)"
  "quiet s (subscribeReady cb s)" "quiet s (unsubscribeReady cb s)"
  by (rule quiet_same;
      simp add: subscribeKey_def unsubscribeKey_def subscribePrefix_def unsubscribePrefix_def
        subscribeAll_def unsubscribeAll_def subscribeReady_def unsubscribeReady_def
        split: option.splits)+

lemma quiet_getOrSetAsync: "quiet s (snd (getOrSetAsync k f opts s))"
proof -
  obtain v s1 where g: "store_get k s = (v, s1)" by (cases "store_get k s")
  then have q: "quiet s s1" using quiet_store_get [of s k] by simp
  have r: "quiet s0 (s0\<lparr>nextPromise := n, fetcherLog := fl, suspended := su, inFlight := inf\<rparr>)"
    for s0 n fl su inf by (rule quiet_same) simp_all
  have r': "quiet s0 (s0\<lparr>nextPromise := n, fetcherLog := fl, promises := su, inFlight := inf\<rparr>)"
    for s0 n fl su inf by (rule quiet_same) simp_all
  show ?thesis
    using q g r r' quiet_trans [OF q r] quiet_trans [OF q r']
    by (auto simp: getOrSetAsync_def Let_def split: option.splits)
qed

lemma quiet_tick: "quiet s (s\<lparr>clock := t\<rparr>)"
  by (rule quiet_same) simp_all

lemma balanced_refl [simp]: "balanced s s"
  by (simp add: balanced_def)

lemma balanced_trans: "balanced s s1 \<Longrightarrow> balanced s1 s2 \<Longrightarrow> balanced s s2"
  by (auto simp: balanced_def)

lemma quiet_balanced: "quiet s s' \<Longrightarrow> balanced s s'"
  unfolding balanced_def using quiet_queue_ok [of s s'] by (auto simp: quiet_def)

lemma fanout_emitNow [simp]: "fanout k' (emitNow k s) = fanout k' s"
  by (simp add: fanout_def emitNow_def)

lemma fold_emitNow:
  "fold emitNow ks s = s\<lparr>delivered := delivered s @ map (\<lambda>k. Notify k (fanout k s)) ks\<rparr>"
proof (induction ks arbitrary: s)
  case Nil
  show ?case by simp
next
  case (Cons k ks)
  show ?case
    unfolding fold_simps Cons.IH [of "emitNow k s"] fanout_emitNow
    by (simp add: emitNow_def)
qed

lemma batch_finally_inner:
  "batchDepth s \<noteq> 1 \<Longrightarrow> batch_finally s = s\<lparr>batchDepth := batchDepth s - 1\<rparr>"
  by (simp add: batch_finally_def Let_def)

lemma batch_finally_outer:
  "batchDepth s = 1 \<Longrightarrow> \<not> pendingReadyEmit s \<Longrightarrow>
   batch_finally s
     = s\<lparr>batchDepth := 0, pendingKeys := [],
         delivered := delivered s @ map (\<lambda>k. Notify k (fanout k s)) (pendingKeys s)\<rparr>"
  by (simp add: batch_finally_def Let_def fold_emitNow fanout_def)

lemma batch_finally_outer_ready:
  "batchDepth s = 1 \<Longrightarrow> pendingReadyEmit s \<Longrightarrow>
   batch_finally s
     = s\<lparr>batchDepth := 0, pendingKeys := [], pendingReadyEmit := False,
         delivered := delivered s @ map (\<lambda>k. Notify k (fanout k s)) (pendingKeys s)
                      @ [NotifyReady (map ReadyListener (readyListeners s))]\<rparr>"
  by (simp add: batch_finally_def Let_def fold_emitNow fanout_def emitReadyNow_def)

lemma balanced_batch:
  assumes "balanced (s\<lparr>batchDepth := batchDepth s + 1\<rparr>) s1"
  shows "balanced s (batch_finally s1)"
proof -
  let ?s0 = "s\<lparr>batchDepth := batchDepth s + 1\<rparr>"
  have d1: "batchDepth s1 = batchDepth s + 1"
    using assms by (simp add: balanced_def)
  have depth: "batchDepth (batch_finally s1) = batchDepth s"
    using d1 by (cases "pendingReadyEmit s1"; cases "batchDepth s = 0")
                (simp_all add: batch_finally_inner batch_finally_outer batch_finally_outer_ready)
  have inner: "delivered (batch_finally s1) = delivered s
             \<and> pendingReadyEmit (batch_finally s1) = pendingReadyEmit s" if "0 < batchDepth s"
  proof -
    from that d1 have "batchDepth s1 \<noteq> 1" by simp
    moreover from that assms have "delivered s1 = delivered s" "pendingReadyEmit s1 = pendingReadyEmit s"
      by (simp_all add: balanced_def)
    ultimately show ?thesis by (simp add: batch_finally_inner)
  qed
  have ok: "queue_ok (batch_finally s1)" if q: "queue_ok s"
  proof -
    from q have "queue_ok ?s0" by (simp add: queue_ok_def)
    with assms have q1: "queue_ok s1" by (simp add: balanced_def)
    show ?thesis
    proof (cases "batchDepth s = 0")
      case True
      with d1 have "batchDepth s1 = 1" by simp
      then show ?thesis
        by (cases "pendingReadyEmit s1")
           (simp_all add: batch_finally_outer batch_finally_outer_ready queue_ok_def)
    next
      case False
      with d1 q have "batchDepth s1 \<noteq> 1" "0 < batchDepth s" by (simp_all add: queue_ok_def)
      with q1 d1 show ?thesis by (simp add: batch_finally_inner queue_ok_def)
    qed
  qed
  show ?thesis unfolding balanced_def using depth inner ok by blast
qed

lemma balanced_exec_run:
  "balanced s (snd (exec c s))"
  "balanced s (snd (run cs s))"
proof (induction c s and cs s rule: exec_run.induct)
  case (20 body s)
  obtain t s1 where r: "run body (s\<lparr>batchDepth := batchDepth s + 1\<rparr>) = (t, s1)"
    by (cases "run body (s\<lparr>batchDepth := batchDepth s + 1\<rparr>)")
  with 20 have "balanced (s\<lparr>batchDepth := batchDepth s + 1\<rparr>) s1" by simp
  from balanced_batch [OF this] r show ?case by simp
next
  case (24 c cs s)
  obtain t s1 where e: "exec c s = (t, s1)" by (cases "exec c s")
  with 24(1) have b1: "balanced s s1" by simp
  show ?case
  proof (cases t)
    case True
    with e b1 show ?thesis by simp
  next
    case False
    with 24(2) [OF e [symmetric]] have "balanced s1 (snd (run cs s1))" by simp
    with b1 e False show ?thesis by (auto intro: balanced_trans)
  qed
qed (simp_all add: quiet_balanced quiet_store_get quiet_store_has quiet_store_meta
       quiet_store_set quiet_store_update quiet_store_remove quiet_store_keys
       quiet_store_clear quiet_store_touch quiet_getOrSetAsync quiet_subscriptions
       store_emit_def quiet_queueEmitKey quiet_tick)

lemma idle_queue_ok: "idle s \<Longrightarrow> queue_ok s"
  by (simp add: idle_def queue_ok_def)

lemma idle_exec: "idle s \<Longrightarrow> idle (snd (exec c s))"
  using balanced_exec_run(1) [of s c]
  by (auto simp: balanced_def idle_def queue_ok_def)

lemma idle_quiet: "idle s \<Longrightarrow> quiet s s' \<Longrightarrow> idle s'"
  by (auto simp: idle_def quiet_def)

lemma quiet_fetchSettled: "quiet s (fetchSettled p out s)"
proof (cases "map_of (suspended s) p")
  case None
  then show ?thesis by (simp add: fetchSettled_def)
next
  case (Some kt)
  obtain key ttl where kt: "kt = (key, ttl)" by (cases kt)
  let ?s1 = "s\<lparr>suspended := AList.delete p (suspended s)\<rparr>"
  let ?s2 = "case out of Resolved v \<Rightarrow> store_set key v ttl ?s1 | Rejected e \<Rightarrow> ?s1"
  have "quiet s ?s1" by (rule quiet_same) simp_all
  also have "quiet ?s1 ?s2" by (cases out) (simp_all add: quiet_store_set)
  also have "quiet ?s2 (?s2\<lparr>inFlight := AList.delete key (inFlight ?s2),
                               promises := promises ?s2 @ [(p, out)]\<rparr>)"
    by (rule quiet_same) simp_all
  finally show ?thesis using Some kt by (simp add: fetchSettled_def Let_def)
qed

lemma idle_hydrationFailed: "idle s \<Longrightarrow> idle (hydrationFailed e s)"
  by (simp add: idle_def hydrationFailed_def queueEmitReady_def emitReadyNow_def)

lemma idle_keysListed: "idle s \<Longrightarrow> idle (keysListed res s)"
  by (cases res) (simp_all add: keysListed_def idle_hydrationFailed, simp add: idle_def)

lemma hydrateRows_queue:
  "batchDepth (snd (hydrateRows rows td s)) = batchDepth s
   \<and> pendingKeys (snd (hydrateRows rows td s)) = pendingKeys s
   \<and> pendingReadyEmit (snd (hydrateRows rows td s)) = pendingReadyEmit s
   \<and> delivered (snd (hydrateRows rows td s)) = delivered s"
  by (induction rows td s rule: hydrateRows.induct) auto

lemma idle_rowsFetched: "idle s \<Longrightarrow> idle (rowsFetched res s)"
proof -
  assume i: "idle s"
  show ?thesis
  proof (cases "hydrationPhase s \<noteq> AwaitingRows")
    case True
    with i show ?thesis by (simp add: rowsFetched_def)
  next
    case False
    show ?thesis
    proof (cases res)
      case (Inl e)
      with i False show ?thesis by (simp add: rowsFetched_def idle_hydrationFailed)
    next
      case (Inr rows)
      obtain td s0 where h: "hydrateRows rows [] (s\<lparr>batchDepth := batchDepth s + 1\<rparr>) = (td, s0)"
        by (cases "hydrateRows rows [] (s\<lparr>batchDepth := batchDepth s + 1\<rparr>)")
      from hydrateRows_queue [of rows "[]" "s\<lparr>batchDepth := batchDepth s + 1\<rparr>"] h i
      have s0: "batchDepth s0 = 1" "pendingKeys s0 = []" "\<not> pendingReadyEmit s0"
        by (simp_all add: idle_def)
      then have "idle (batch_finally s0)"
        by (simp add: batch_finally_outer idle_def)
      then show ?thesis
        using False Inr h
        by (simp add: rowsFetched_def store_batch_def Let_def idle_def removeFromDriver_def
              queueEmitReady_def emitReadyNow_def)
    qed
  qed
qed

lemma idle_createCache: "idle (createCache opts now)"
  by (simp add: createCache_def emptyState_def idle_def queueEmitReady_def emitReadyNow_def)

lemma idle_step: "idle s \<Longrightarrow> idle (step ev s)"
  by (cases ev)
     (auto simp: idle_exec idle_keysListed idle_rowsFetched intro: idle_quiet quiet_fetchSettled)

lemma idle_run_events: "idle s \<Longrightarrow> idle (run_events evs s)"
  unfolding run_events_def by (induction evs arbitrary: s) (simp_all add: idle_step)

lemma store_batch_run: "store_batch (run body) s = exec (CBatch body) s"
  by (simp add: store_batch_def)

text \<open>
  C3. \<open>batch(fn)\<close> on a store with no batch open, for \<open>fn\<close> any caller code (\<open>run body\<close>).
  While \<open>fn\<close> runs, and more generally while any batch is open, nothing is delivered. The
  \<open>finally\<close> block of the outermost batch then delivers one notification for each pending
  key, each key once, and no ready notification; whether \<open>fn\<close> returned or threw, the
  depth is back to 0, the pending set is empty and the exception, if any, propagates.
  Every state between two tasks is such a store.
\<close>

theorem batch_coalesces_notifications:
  assumes "idle s"
  shows "store_batch (run body) s = exec (CBatch body) s
       \<and> fst (exec (CBatch body) s) = fst (run body (s\<lparr>batchDepth := 1\<rparr>))
       \<and> delivered (snd (run body (s\<lparr>batchDepth := 1\<rparr>))) = delivered s
       \<and> (\<forall>cs s'. 0 < batchDepth s' \<longrightarrow>
             delivered (snd (run cs s')) = delivered s'
           \<and> batchDepth (snd (run cs s')) = batchDepth s')
       \<and> delivered (snd (exec (CBatch body) s))
           = delivered s
             @ map (\<lambda>k. Notify k (fanout k (snd (run body (s\<lparr>batchDepth := 1\<rparr>)))))
                   (pendingKeys (snd (run body (s\<lparr>batchDepth := 1\<rparr>))))
       \<and> distinct (pendingKeys (snd (run body (s\<lparr>batchDepth := 1\<rparr>))))
       \<and> batchDepth (snd (exec (CBatch body) s)) = 0
       \<and> pendingKeys (snd (exec (CBatch body) s)) = []
       \<and> \<not> pendingReadyEmit (snd (exec (CBatch body) s))
       \<and> idle (run_events evs (createCache opts now))"
proof -
  let ?s0 = "s\<lparr>batchDepth := 1\<rparr>"
  obtain t s1 where r: "run body ?s0 = (t, s1)" by (cases "run body ?s0")
  have d0: "batchDepth s = 0" using assms by (simp add: idle_def)
  have q0: "queue_ok ?s0" "\<not> pendingReadyEmit ?s0"
    using assms by (simp_all add: idle_def queue_ok_def)
  have b: "balanced ?s0 s1" using balanced_exec_run(2) [of ?s0 body] r by simp
  then have s1: "batchDepth s1 = 1" "delivered s1 = delivered s" "\<not> pendingReadyEmit s1"
      "queue_ok s1"
    using q0 by (simp_all add: balanced_def)
  have ex: "exec (CBatch body) s = (t, batch_finally s1)"
    using r d0 by simp
  have fin: "batch_finally s1
     = s1\<lparr>batchDepth := 0, pendingKeys := [],
          delivered := delivered s1 @ map (\<lambda>k. Notify k (fanout k s1)) (pendingKeys s1)\<rparr>"
    using s1 by (simp add: batch_finally_outer)
  have gen: "\<forall>cs s'. 0 < batchDepth s' \<longrightarrow>
             delivered (snd (run cs s')) = delivered s'
           \<and> batchDepth (snd (run cs s')) = batchDepth s'"
    using balanced_exec_run(2) by (simp add: balanced_def)
  have "idle (run_events evs (createCache opts now))"
    by (rule idle_run_events) (rule idle_createCache)
  then show ?thesis
    using gen s1 unfolding store_batch_run ex r fin
    by (simp add: queue_ok_def)
qed

lemma demo_body_run:
  "run demo_body (demo_listening\<lparr>batchDepth := 1\<rparr>)
   = (True,
  \<lparr>clock = 0, hasGetMany = False, hasRemoveMany = False,
     hasClearPrefix = False, cleanupExpiredOnHydrate = True,
     mirror =
       [(''b'', \<lparr>evalue = Num 2, createdAt = 0, ttlMs = None\<rparr>),
        (''a'', \<lparr>evalue = Num 3, createdAt = 0, ttlMs = None\<rparr>)],
     keyListeners = [], prefixListeners = [], allListeners = [7],
     readyListeners = [], batchDepth = 1, pendingKeys = [''a'', ''b''],
     pendingReadyEmit = False, ready = True,
     readyP = Some (Resolved Undefined), inFlight = [],
     allKeysCache = \<lparr>keys = [], valid = False\<rparr>, prefixKeysCache = [],
     driverLog =
       [DrvSet ''a'' \<lparr>evalue = Num 1, createdAt = 0, ttlMs = None\<rparr>,
        DrvSet ''b'' \<lparr>evalue = Num 2, createdAt = 0, ttlMs = None\<rparr>,
        DrvRemove ''a'',
        DrvSet ''a'' \<lparr>evalue = Num 3, createdAt = 0, ttlMs = None\<rparr>],
     delivered = [NotifyReady []], fetcherLog = [], promises = [],
     suspended = [], nextPromise = 0, hydrationPhase = NoHydration\<rparr>)"
  by (simp add: demo_body_def demo_listening_def subscribeAll_def set_add_def eval_defs)

theorem batch_coalesces_notifications_witness:
  "idle demo_listening
   \<and> fst (exec (CBatch demo_body) demo_listening)
   \<and> delivered (snd (run demo_body (demo_listening\<lparr>batchDepth := 1\<rparr>))) = delivered demo_listening
   \<and> delivered (snd (exec (CBatch demo_body) demo_listening))
       = delivered demo_listening
         @ [Notify ''a'' [AllListener 7 ''a''], Notify ''b'' [AllListener 7 ''b'']]
   \<and> batchDepth (snd (exec (CBatch demo_body) demo_listening)) = 0"
proof -
  have i: "idle demo_listening"
    by (simp add: idle_def demo_listening_def subscribeAll_def set_add_def eval_defs)
  have f: "fanout k (snd (run demo_body (demo_listening\<lparr>batchDepth := 1\<rparr>))) = [AllListener 7 k]"
    for k unfolding demo_body_run by (simp add: fanout_def)
  show ?thesis
    using batch_coalesces_notifications [OF i, of demo_body] i
    unfolding f unfolding demo_body_run
    by simp
qed

section \<open>In-flight fetches and readiness\<close>

lemma background_fold:
  assumes "\<And>x s. background (f x s) = background s"
  shows "background (fold f xs s) = background s"
  by (induction xs arbitrary: s) (simp_all add: assms)

lemma background_invalidate [simp]:
  "background (invalidateKeyCachesForMutation k s) = background s"
  by (simp add: background_def invalidate_defs)

lemma background_dropKey [simp]: "background (dropKey k s) = background s"
  by (simp add: background_def dropKey_def invalidate_defs)

lemma background_evict [simp]: "background (evict k s) = background s"
  by (simp add: evict_def)

lemma background_queueEmitKey [simp]: "background (queueEmitKey k s) = background s"
  by (simp add: background_def queueEmitKey_def emitNow_def)

lemma background_getEntry: "background (snd (getEntry k s)) = background s"
  by (auto simp: getEntry_def pruneIfDead_def split: option.splits)

lemma background_store_get: "background (snd (store_get k s)) = background s"
  using background_getEntry [of k s] by (auto simp: store_get_def split: prod.splits option.splits)

lemma background_store_has [simp]: "background (snd (store_has k s)) = background s"
  using background_getEntry [of k s] by (auto simp: store_has_def split: prod.splits option.splits)

lemma background_store_meta [simp]: "background (snd (store_meta k s)) = background s"
  using background_getEntry [of k s] by (auto simp: store_meta_def split: prod.splits)

lemma background_setInternal [simp]: "background (setInternal key entry s) = background s"
proof (cases entry)
  case None
  then show ?thesis by (simp add: setInternal_remove)
next
  case (Some e)
  have "background (invalidateKeyCachesForMutation key
                  (s\<lparr>mirror := AList.update key e (mirror s),
                     driverLog := driverLog s @ [DrvSet key e]\<rparr>)) = background s"
    by (simp add: background_def invalidate_defs)
  then show ?thesis unfolding Some setInternal_cases by simp
qed

lemma background_store_set [simp]: "background (store_set k v t s) = background s"
  by (simp add: store_set_def)

lemma background_store_remove [simp]: "background (store_remove k s) = background s"
  by (simp add: store_remove_def)

lemma background_store_update [simp]: "background (snd (store_update k f t s)) = background s"
  using background_store_get [of k s]
  by (auto simp: store_update_def split: prod.splits)

lemma background_store_touch [simp]: "background (store_touch k t s) = background s"
  using background_getEntry [of k s]
  by (auto simp: store_touch_def split: prod.splits option.splits)

lemma background_getCachedKeys [simp]: "background (snd (getCachedKeys prefix s)) = background s"
proof -
  have d: "background (fold dropKey ds s0) = background s0" for ds s0
    by (rule background_fold) simp
  have e: "background (fold evict ds s0) = background s0" for ds s0
    by (rule background_fold) simp
  have a: "background (s0\<lparr>allKeysCache := c\<rparr>) = background s0" for s0 c
    by (simp add: background_def)
  have p: "background (s0\<lparr>prefixKeysCache := pc\<rparr>) = background s0" for s0 pc
    by (simp add: background_def)
  show ?thesis
  proof (cases "falsy prefix")
    case True
    show ?thesis
      by (cases "valid (allKeysCache s)")
         (simp_all add: getCachedKeys_all_invalid [OF True] getCachedKeys_all_valid [OF True]
            a d e)
  next
    case False
    then obtain q where q: "prefix = Some q" "q \<noteq> []"
      by (cases prefix) (auto simp: falsy_def)
    show ?thesis
    proof (cases "map_of (prefixKeysCache s) q")
      case None
      show ?thesis
        unfolding q getCachedKeys_prefix_new [OF q(2) None] by (simp add: p d)
    next
      case (Some c)
      show ?thesis
        unfolding q
        by (cases "valid c")
           (simp_all add: getCachedKeys_prefix_invalid [OF q(2) Some]
              getCachedKeys_prefix_valid [OF q(2) Some] p d e)
    qed
  qed
qed

lemma background_store_keys: "background (snd (store_keys prefix s)) = background s"
  by (simp add: store_keys_def)

lemmas background_reads [simp] =
  background_getEntry background_store_get background_store_keys

lemma background_store_clear [simp]: "background (store_clear prefix s) = background s"
proof (cases "falsy prefix")
  case True
  obtain ks s1 where k: "store_keys None s = (ks, s1)" by (cases "store_keys None s")
  have b1: "background s1 = background s" using background_store_keys [of None s] k by simp
  have q: "background (fold queueEmitKey ks s0) = background s0" for s0
    by (rule background_fold) simp
  show ?thesis
    using True k b1
    by (simp add: store_clear_def Let_def q) (simp add: background_def removeFromDriver_def)
next
  case False
  then obtain p where p: "prefix = Some p" by (cases prefix) (auto simp: falsy_def)
  obtain ks s1 where k: "store_keys (Some p) s = (ks, s1)" by (cases "store_keys (Some p) s")
  have b1: "background s1 = background s" using background_store_keys [of "Some p" s] k by simp
  have q: "background (fold queueEmitKey ks s0) = background s0" for s0
    by (rule background_fold) simp
  have i: "background (fold invalidatePrefixCachesForKey ks s0) = background s0" for s0
    by (rule background_fold) (simp add: background_def invalidatePrefixCachesForKey_def)
  show ?thesis
    using False k b1 unfolding p
    by (simp add: store_clear_def Let_def q i)
       (simp add: background_def removeFromDriver_def invalidatePrefixCache_def
          invalidateAllKeysCache_def)
qed

lemma background_subscriptions [simp]:
  "background (subscribeKey k cb s) = background s"
  "background (unsubscribeKey k cb s) = background s"
  "background (subscribePrefix p cb s) = background s"
  "background (unsubscribePrefix p cb s) = background s"
  "background (subscribeAll cb s) = background s"
  "background (unsubscribeAll cb s) = background s"
  "background (subscribeReady cb s) = background s"
  "background (unsubscribeReady cb s) = background s"
  by (simp_all add: background_def subscribeKey_def unsubscribeKey_def subscribePrefix_def
        unsubscribePrefix_def subscribeAll_def unsubscribeAll_def subscribeReady_def
        unsubscribeReady_def split: option.splits)

lemma background_batch_finally [simp]: "background (batch_finally s) = background s"
  by (simp add: batch_finally_def Let_def fold_emitNow emitReadyNow_def background_def)

lemma steady_refl [simp]: "steady s s"
  by (simp add: steady_def)

lemma steady_trans: "steady s s1 \<Longrightarrow> steady s1 s2 \<Longrightarrow> steady s s2"
  by (auto simp: steady_def)

lemma steady_background: "background s' = background s \<Longrightarrow> steady s s'"
  by (simp add: steady_def background_def async_inv_def)

lemma async_inv_background: "background s' = background s \<Longrightarrow> async_inv s \<Longrightarrow> async_inv s'"
  by (simp add: background_def async_inv_def)

lemma getOrSetAsync_cached:
  assumes "\<not> forced opts" and "fst (store_get key s) \<noteq> Undefined"
  shows "getOrSetAsync key f opts s = (Fulfilled (fst (store_get key s)), snd (store_get key s))"
  using assms by (cases "store_get key s") (simp add: getOrSetAsync_def forced_def)

lemma getOrSetAsync_join:
  assumes "forced opts \<or> fst (store_get key s) = Undefined"
    and "map_of (inFlight (afterCacheCheck key opts s)) key = Some p"
  shows "getOrSetAsync key f opts s = (Follows p, afterCacheCheck key opts s)"
  using assms
  by (cases "store_get key s")
     (auto simp: getOrSetAsync_def forced_def afterCacheCheck_def Let_def)

lemma getOrSetAsync_start:
  assumes "forced opts \<or> fst (store_get key s) = Undefined"
    and "map_of (inFlight (afterCacheCheck key opts s)) key = None"
    and "throws f = None"
  shows "getOrSetAsync key f opts s
         = (Follows (nextPromise (afterCacheCheck key opts s)),
            (afterCacheCheck key opts s)
              \<lparr>nextPromise := nextPromise (afterCacheCheck key opts s) + 1,
               fetcherLog := fetcherLog (afterCacheCheck key opts s) @ [fid f],
               suspended := suspended (afterCacheCheck key opts s)
                              @ [(nextPromise (afterCacheCheck key opts s), key, opts_ttl opts)],
               inFlight := AList.update key (nextPromise (afterCacheCheck key opts s))
                             (inFlight (afterCacheCheck key opts s))\<rparr>)"
  using assms
  by (cases "store_get key s")
     (auto simp: getOrSetAsync_def forced_def afterCacheCheck_def Let_def opts_ttl_def)

lemma getOrSetAsync_throw:
  assumes "forced opts \<or> fst (store_get key s) = Undefined"
    and "map_of (inFlight (afterCacheCheck key opts s)) key = None"
    and "throws f = Some e"
  shows "getOrSetAsync key f opts s
         = (Follows (nextPromise (afterCacheCheck key opts s)),
            (afterCacheCheck key opts s)
              \<lparr>nextPromise := nextPromise (afterCacheCheck key opts s) + 1,
               fetcherLog := fetcherLog (afterCacheCheck key opts s) @ [fid f],
               promises := promises (afterCacheCheck key opts s)
                             @ [(nextPromise (afterCacheCheck key opts s), Rejected e)],
               inFlight := AList.update key (nextPromise (afterCacheCheck key opts s))
                             (AList.delete key (inFlight (afterCacheCheck key opts s)))\<rparr>)"
  using assms
  by (cases "store_get key s")
     (auto simp: getOrSetAsync_def forced_def afterCacheCheck_def Let_def)

lemma background_afterCacheCheck [simp]:
  "background (afterCacheCheck key opts s) = background s"
  by (simp add: afterCacheCheck_def)

lemma async_inv_new_fetch:
  assumes "async_inv s" and "map_of (inFlight s) key = None"
  shows "async_inv (s\<lparr>nextPromise := nextPromise s + 1, fetcherLog := fl,
                       suspended := suspended s @ [(nextPromise s, key, ttl)],
                       inFlight := AList.update key (nextPromise s) (inFlight s)\<rparr>)"
proof -
  have fresh: "\<forall>q \<in> fst ` set (suspended s) \<union> fst ` set (promises s). q < nextPromise s"
    using assms(1) by (simp add: async_inv_def)
  then have n1: "nextPromise s \<notin> fst ` set (suspended s)"
    and n2: "nextPromise s \<notin> fst ` set (promises s)" by auto
  have other: "key' \<noteq> key" if "(p, key', t) \<in> set (suspended s)" for p key' t
    using that assms by (auto simp: async_inv_def)
  show ?thesis
    using assms(1) fresh n1 n2 other
    unfolding async_inv_def
    by (auto simp: update_conv' less_Suc_eq)
qed

lemma async_inv_thrown_fetch:
  assumes "async_inv s" and "map_of (inFlight s) key = None"
  shows "async_inv (s\<lparr>nextPromise := nextPromise s + 1, fetcherLog := fl,
                       promises := promises s @ [(nextPromise s, out)],
                       inFlight := AList.update key (nextPromise s)
                                     (AList.delete key (inFlight s))\<rparr>)"
proof -
  have fresh: "\<forall>q \<in> fst ` set (suspended s) \<union> fst ` set (promises s). q < nextPromise s"
    using assms(1) by (simp add: async_inv_def)
  then have n1: "nextPromise s \<notin> fst ` set (suspended s)" by auto
  have other: "key' \<noteq> key" if "(p, key', t) \<in> set (suspended s)" for p key' t
    using that assms by (auto simp: async_inv_def)
  show ?thesis
    using assms(1) fresh n1 other
    unfolding async_inv_def
    by (auto simp: update_conv' delete_conv' less_Suc_eq)
qed

lemma steady_getOrSetAsync: "steady s (snd (getOrSetAsync key f opts s))"
proof -
  let ?s1 = "afterCacheCheck key opts s"
  have b1: "background ?s1 = background s" by simp
  have r1: "ready ?s1 = ready s" "readyP ?s1 = readyP s" "hydrationPhase ?s1 = hydrationPhase s"
    using b1 by (simp_all add: background_def)
  have i1: "async_inv s \<Longrightarrow> async_inv ?s1" using b1 by (rule async_inv_background)
  show ?thesis
  proof (cases "\<not> forced opts \<and> fst (store_get key s) \<noteq> Undefined")
    case True
    then have "getOrSetAsync key f opts s = (Fulfilled (fst (store_get key s)), snd (store_get key s))"
      by (simp add: getOrSetAsync_cached)
    then show ?thesis by (simp add: steady_background)
  next
    case False
    then have c: "forced opts \<or> fst (store_get key s) = Undefined" by blast
    show ?thesis
    proof (cases "map_of (inFlight ?s1) key")
      case (Some p)
      show ?thesis unfolding getOrSetAsync_join [OF c Some] by (simp add: steady_background)
    next
      case None
      show ?thesis
      proof (cases "throws f")
        case n: None
        show ?thesis
          unfolding getOrSetAsync_start [OF c None n] steady_def
          using r1 i1 async_inv_new_fetch [OF _ None] by simp
      next
        case (Some e)
        show ?thesis
          unfolding getOrSetAsync_throw [OF c None Some] steady_def
          using r1 i1 async_inv_thrown_fetch [OF _ None] by simp
      qed
    qed
  qed
qed

lemma fetchSettled_idle:
  "map_of (suspended s) p = None \<Longrightarrow> fetchSettled p out s = s"
  by (simp add: fetchSettled_def)

lemma fetchSettled_rejected:
  "map_of (suspended s) p = Some (key, ttl) \<Longrightarrow>
   fetchSettled p (Rejected e) s
     = s\<lparr>suspended := AList.delete p (suspended s),
         inFlight := AList.delete key (inFlight s),
         promises := promises s @ [(p, Rejected e)]\<rparr>"
  by (simp add: fetchSettled_def)

lemma fetchSettled_resolved:
  "map_of (suspended s) p = Some (key, ttl) \<Longrightarrow>
   fetchSettled p (Resolved v) s
     = (store_set key v ttl (s\<lparr>suspended := AList.delete p (suspended s)\<rparr>))
         \<lparr>inFlight := AList.delete key
                        (inFlight (store_set key v ttl (s\<lparr>suspended := AList.delete p (suspended s)\<rparr>))),
          promises := promises (store_set key v ttl (s\<lparr>suspended := AList.delete p (suspended s)\<rparr>))
                      @ [(p, Resolved v)]\<rparr>"
  by (simp add: fetchSettled_def Let_def)

lemma async_inv_settle:
  assumes "async_inv s" and "map_of (suspended s) p = Some (key, ttl)"
  shows "async_inv (s\<lparr>suspended := AList.delete p (suspended s),
                       inFlight := AList.delete key (inFlight s),
                       promises := promises s @ [(p, out)]\<rparr>)"
proof -
  have mem: "(p, key, ttl) \<in> set (suspended s)" using assms(2) by (rule map_of_SomeD)
  have d: "distinct (map fst (suspended s))" using assms(1) by (simp add: async_inv_def)
  have sub: "set (AList.delete p (suspended s)) \<subseteq> set (suspended s)"
    by (rule set_delete_subset)
  have gone: "p \<notin> fst ` set (AList.delete p (suspended s))"
    by (rule delete_notin_dom)
  have fl: "map_of (inFlight s) key = Some p"
    using assms(1) mem by (auto simp: async_inv_def)
  have other: "key' \<noteq> key"
    if "(p', key', t) \<in> set (AList.delete p (suspended s))" for p' key' t
  proof
    assume "key' = key"
    moreover from that sub have "(p', key', t) \<in> set (suspended s)" by auto
    ultimately have "map_of (inFlight s) key = Some p'"
      using assms(1) by (auto simp: async_inv_def)
    with fl have "p' = p" by simp
    with that gone show False by (auto simp: image_iff)
  qed
  have a: "distinct (map fst (AList.delete p (suspended s)))"
    using d by (rule distinct_delete)
  have dsub: "fst ` set (AList.delete p (suspended s)) \<subseteq> fst ` set (suspended s)"
    by (rule dom_delete_subset)
  have pin: "p \<in> fst ` set (suspended s)" using mem by force
  have fresh: "\<forall>q \<in> fst ` set (suspended s) \<union> fst ` set (promises s). q < nextPromise s"
    and disj: "fst ` set (suspended s) \<inter> fst ` set (promises s) = {}"
    using assms(1) by (simp_all add: async_inv_def)
  have b: "\<forall>q \<in> fst ` set (AList.delete p (suspended s)) \<union> fst ` set (promises s @ [(p, out)]).
             q < nextPromise s"
    using fresh dsub pin by auto
  have c: "fst ` set (AList.delete p (suspended s)) \<inter> fst ` set (promises s @ [(p, out)]) = {}"
  proof -
    have h1: "fst ` set (AList.delete p (suspended s)) \<inter> fst ` set (promises s) = {}"
      using disj dsub by blast
    have h2: "fst ` set (promises s @ [(p, out)]) = insert p (fst ` set (promises s))"
      by simp
    show ?thesis unfolding h2 using gone h1 by simp
  qed
  have e: "\<forall>(p', key', t) \<in> set (AList.delete p (suspended s)).
             map_of (AList.delete key (inFlight s)) key' = Some p'"
  proof clarify
    fix p' key' t assume m: "(p', key', t) \<in> set (AList.delete p (suspended s))"
    then have "key' \<noteq> key" by (rule other)
    moreover from m sub have "map_of (inFlight s) key' = Some p'"
      using assms(1) by (auto simp: async_inv_def)
    ultimately show "map_of (AList.delete key (inFlight s)) key' = Some p'" by simp
  qed
  let ?s' = "s\<lparr>suspended := AList.delete p (suspended s),
                 inFlight := AList.delete key (inFlight s),
                 promises := promises s @ [(p, out)]\<rparr>"
  have f: "suspended ?s' = AList.delete p (suspended s)"
    "inFlight ?s' = AList.delete key (inFlight s)"
    "promises ?s' = promises s @ [(p, out)]" "nextPromise ?s' = nextPromise s"
    by simp_all
  show ?thesis unfolding async_inv_def f
    by (intro conjI a b c e)
qed

lemma steady_fetchSettled: "steady s (fetchSettled p out s)"
proof (cases "map_of (suspended s) p")
  case None
  then show ?thesis by (simp add: fetchSettled_idle)
next
  case (Some kt)
  obtain key ttl where kt: "kt = (key, ttl)" by (cases kt)
  let ?s1 = "s\<lparr>suspended := AList.delete p (suspended s)\<rparr>"
  let ?s2 = "case out of Resolved v \<Rightarrow> store_set key v ttl ?s1 | Rejected e \<Rightarrow> ?s1"
  let ?s3 = "?s2\<lparr>inFlight := AList.delete key (inFlight ?s2),
                  promises := promises ?s2 @ [(p, out)]\<rparr>"
  have f: "fetchSettled p out s = ?s3" using Some kt by (simp add: fetchSettled_def Let_def)
  have b2: "background ?s2 = background ?s1" by (cases out) simp_all
  then have eq: "inFlight ?s2 = inFlight s" "promises ?s2 = promises s"
    "suspended ?s2 = AList.delete p (suspended s)" "nextPromise ?s2 = nextPromise s"
    "ready ?s2 = ready s" "readyP ?s2 = readyP s" "hydrationPhase ?s2 = hydrationPhase s"
    by (simp_all add: background_def)
  have "async_inv ?s3" if "async_inv s"
    using async_inv_settle [OF that Some [unfolded kt], of out]
    by (simp add: async_inv_def eq)
  then show ?thesis unfolding f steady_def using eq by simp
qed

lemma steady_exec_run:
  "steady s (snd (exec c s))"
  "steady s (snd (run cs s))"
proof (induction c s and cs s rule: exec_run.induct)
  case (20 body s)
  obtain t s1 where r: "run body (s\<lparr>batchDepth := batchDepth s + 1\<rparr>) = (t, s1)"
    by (cases "run body (s\<lparr>batchDepth := batchDepth s + 1\<rparr>)")
  have "steady s (s\<lparr>batchDepth := batchDepth s + 1\<rparr>)"
    by (rule steady_background) (simp add: background_def)
  moreover from 20 r have "steady (s\<lparr>batchDepth := batchDepth s + 1\<rparr>) s1" by simp
  moreover have "steady s1 (batch_finally s1)" by (rule steady_background) simp
  ultimately have "steady s (batch_finally s1)" by (blast intro: steady_trans)
  with r show ?case by simp
next
  case (22 d s)
  show ?case by (simp add: steady_background background_def)
next
  case (24 c cs s)
  obtain t s1 where e: "exec c s = (t, s1)" by (cases "exec c s")
  with 24(1) have b1: "steady s s1" by simp
  show ?case
  proof (cases t)
    case True
    with e b1 show ?thesis by simp
  next
    case False
    with 24(2) [OF e [symmetric]] have "steady s1 (snd (run cs s1))" by simp
    with b1 e False show ?thesis by (auto intro: steady_trans)
  qed
qed (simp_all add: steady_background steady_getOrSetAsync store_emit_def)

lemma async_inv_async_part: "async_part s' = async_part s \<Longrightarrow> async_inv s \<Longrightarrow> async_inv s'"
  by (simp add: async_part_def async_inv_def)

lemma async_part_hydrationFailed [simp]: "async_part (hydrationFailed e s) = async_part s"
  by (simp add: async_part_def hydrationFailed_def queueEmitReady_def emitReadyNow_def)

lemma async_part_keysListed [simp]: "async_part (keysListed res s) = async_part s"
  by (cases res) (simp_all add: keysListed_def, simp add: async_part_def)

lemma async_part_hydrateRows [simp]:
  "async_part (snd (hydrateRows rows td s)) = async_part s"
  by (induction rows td s rule: hydrateRows.induct) (auto simp: async_part_def)

lemma async_part_background: "background s' = background s \<Longrightarrow> async_part s' = async_part s"
  by (simp add: background_def async_part_def)

lemma async_part_rowsFetched [simp]: "async_part (rowsFetched res s) = async_part s"
proof (cases "hydrationPhase s \<noteq> AwaitingRows")
  case True
  then show ?thesis by (simp add: rowsFetched_def)
next
  case False
  show ?thesis
  proof (cases res)
    case (Inl e)
    with False show ?thesis by (simp add: rowsFetched_def)
  next
    case (Inr rows)
    obtain td s0 where h: "hydrateRows rows [] (s\<lparr>batchDepth := batchDepth s + 1\<rparr>) = (td, s0)"
      by (cases "hydrateRows rows [] (s\<lparr>batchDepth := batchDepth s + 1\<rparr>)")
    from async_part_hydrateRows [of rows "[]" "s\<lparr>batchDepth := batchDepth s + 1\<rparr>"] h
    have "async_part s0 = async_part s" by (simp add: async_part_def)
    moreover have "async_part (batch_finally s0) = async_part s0"
      by (rule async_part_background) simp
    ultimately have "async_part (batch_finally s0) = async_part s" by simp
    then show ?thesis
      using False Inr h
      by (simp add: rowsFetched_def store_batch_def Let_def removeFromDriver_def
            queueEmitReady_def emitReadyNow_def async_part_def)
  qed
qed

lemma async_inv_createCache: "async_inv (createCache opts now)"
  by (simp add: createCache_def emptyState_def async_inv_def queueEmitReady_def emitReadyNow_def)

lemma async_inv_step: "async_inv s \<Longrightarrow> async_inv (step ev s)"
proof (cases ev)
  case (Call c)
  assume "async_inv s"
  with steady_exec_run(1) [of s c] Call show ?thesis by (simp add: steady_def)
next
  case (FetchSettled p out)
  assume "async_inv s"
  with steady_fetchSettled [of s p out] FetchSettled show ?thesis by (simp add: steady_def)
next
  case (KeysListed res)
  assume "async_inv s"
  with KeysListed show ?thesis by (auto intro: async_inv_async_part [rotated])
next
  case (RowsFetched res)
  assume "async_inv s"
  with RowsFetched show ?thesis by (auto intro: async_inv_async_part [rotated])
qed

lemma async_inv_run_events: "async_inv s \<Longrightarrow> async_inv (run_events evs s)"
  unfolding run_events_def by (induction evs arbitrary: s) (simp_all add: async_inv_step)

subsection \<open>Readiness\<close>

lemma readiness_createCache: "readiness_ok (createCache opts now)"
  by (simp add: createCache_def emptyState_def readiness_ok_def queueEmitReady_def
        emitReadyNow_def settle_def)

lemma ready_hydrationFailed:
  "ready (hydrationFailed e s) \<and> readyP (hydrationFailed e s) = settle (Rejected e) (readyP s)
   \<and> hydrationPhase (hydrationFailed e s) = HydrationFinished"
  by (simp add: hydrationFailed_def queueEmitReady_def emitReadyNow_def)

lemma ready_rowsFetched_ok:
  assumes "hydrationPhase s = AwaitingRows"
  shows "ready (rowsFetched (Inr rows) s)
       \<and> hydrationPhase (rowsFetched (Inr rows) s) = HydrationFinished
       \<and> readyP (rowsFetched (Inr rows) s) = settle (Resolved Undefined) (readyP s)"
proof -
  obtain td s0 where h: "hydrateRows rows [] (s\<lparr>batchDepth := batchDepth s + 1\<rparr>) = (td, s0)"
    by (cases "hydrateRows rows [] (s\<lparr>batchDepth := batchDepth s + 1\<rparr>)")
  have r0: "readyP (snd (hydrateRows rows' td' s')) = readyP s'" for rows' td' s'
    by (induction rows' td' s' rule: hydrateRows.induct) auto
  from r0 [of rows "[]" "s\<lparr>batchDepth := batchDepth s + 1\<rparr>"] h
  have "readyP s0 = readyP s" by simp
  moreover have "readyP (batch_finally s0) = readyP s0"
    using background_batch_finally [of s0] by (simp add: background_def)
  ultimately have "readyP (batch_finally s0) = readyP s" by simp
  then show ?thesis
    using assms h
    by (auto simp: rowsFetched_def store_batch_def Let_def removeFromDriver_def
          queueEmitReady_def emitReadyNow_def)
qed

lemma readiness_step:
  assumes "readiness_ok s"
  shows "readiness_ok (step ev s)
       \<and> (ready s \<longrightarrow> ready (step ev s) \<and> readyP (step ev s) = readyP s)"
proof (cases ev)
  case (Call c)
  with steady_exec_run(1) [of s c] assms show ?thesis
    unfolding steady_def readiness_ok_def by auto
next
  case (FetchSettled p out)
  with steady_fetchSettled [of s p out] assms show ?thesis
    unfolding steady_def readiness_ok_def by auto
next
  case (KeysListed res)
  show ?thesis
  proof (cases "hydrationPhase s = AwaitingKeys")
    case False
    with KeysListed assms show ?thesis by (simp add: keysListed_def)
  next
    case True
    with assms have nr: "\<not> ready s" "readyP s = None" by (auto simp: readiness_ok_def)
    show ?thesis
    proof (cases res)
      case (Inl e)
      with KeysListed True nr ready_hydrationFailed [of e s] show ?thesis
        by (simp add: keysListed_def readiness_ok_def settle_def)
    next
      case (Inr ks)
      with KeysListed True nr show ?thesis
        by (simp add: keysListed_def readiness_ok_def)
    qed
  qed
next
  case (RowsFetched res)
  show ?thesis
  proof (cases "hydrationPhase s = AwaitingRows")
    case False
    with RowsFetched assms show ?thesis by (simp add: rowsFetched_def)
  next
    case True
    with assms have nr: "\<not> ready s" "readyP s = None" by (auto simp: readiness_ok_def)
    show ?thesis
    proof (cases res)
      case (Inl e)
      with RowsFetched True nr ready_hydrationFailed [of e s] show ?thesis
        by (simp add: rowsFetched_def readiness_ok_def settle_def)
    next
      case (Inr rows)
      with RowsFetched True nr ready_rowsFetched_ok [OF True, of rows] show ?thesis
        by (auto simp: readiness_ok_def settle_def)
    qed
  qed
qed

lemma readiness_run_events:
  assumes "readiness_ok s"
  shows "readiness_ok (run_events evs s)
       \<and> (ready s \<longrightarrow> ready (run_events evs s) \<and> readyP (run_events evs s) = readyP s)"
  using assms unfolding run_events_def
proof (induction evs arbitrary: s)
  case Nil
  then show ?case by simp
next
  case (Cons ev evs)
  from readiness_step [OF Cons.prems, of ev]
  have 1: "readiness_ok (step ev s)"
    and 2: "ready s \<longrightarrow> ready (step ev s) \<and> readyP (step ev s) = readyP s" by simp_all
  from Cons.IH [OF 1] 2 show ?case by simp
qed

text \<open>
  C10. With \<open>force: true\<close>, a call made while a fetch for the key is in flight returns
  that fetch's promise and changes nothing: the new fetcher is not invoked. With no fetch
  in flight it invokes its fetcher whatever the mirror holds: \<open>force\<close> skips the cached-value
  check only.
\<close>

theorem force_joins_in_flight:
  assumes "forced opts"
  shows "(\<forall>p. map_of (inFlight s) key = Some p \<longrightarrow>
            getOrSetAsync key f opts s = (Follows p, s))
       \<and> (map_of (inFlight s) key = None \<longrightarrow>
            fst (getOrSetAsync key f opts s) = Follows (nextPromise s)
          \<and> fetcherLog (snd (getOrSetAsync key f opts s)) = fetcherLog s @ [fid f])"
proof -
  have a: "afterCacheCheck key opts s = s" using assms by (simp add: afterCacheCheck_def)
  have c: "forced opts \<or> fst (store_get key s) = Undefined" using assms by simp
  have 1: "getOrSetAsync key f opts s = (Follows p, s)" if "map_of (inFlight s) key = Some p" for p
    using getOrSetAsync_join [OF c, of p f] that a by simp
  have 2: "fst (getOrSetAsync key f opts s) = Follows (nextPromise s)
          \<and> fetcherLog (snd (getOrSetAsync key f opts s)) = fetcherLog s @ [fid f]"
    if n: "map_of (inFlight s) key = None"
  proof (cases "throws f")
    case None
    from getOrSetAsync_start [OF c _ None] n a show ?thesis by simp
  next
    case (Some e)
    from getOrSetAsync_throw [OF c _ Some] n a show ?thesis by simp
  qed
  from 1 2 show ?thesis by blast
qed

lemma map_of_snoc_fresh: "map_of xs k = None \<Longrightarrow> map_of (xs @ [(k, v)]) k = Some v"
  by (simp add: map_add_def)

lemma store_get_stable:
  assumes "fst (store_get key s) = Undefined"
  shows "fst (store_get key (snd (store_get key s))) = Undefined"
proof (cases "map_of (mirror s) key")
  case None
  then show ?thesis by (simp add: store_get_def getEntry_def)
next
  case (Some e)
  show ?thesis
  proof (cases "isAlive (clock s) (Some e)")
    case True
    with Some assms show ?thesis by (simp add: store_get_def getEntry_def pruneIfDead_def)
  next
    case False
    with Some have "store_get key s = (Undefined, dropKey key s)"
      by (simp add: store_get_def getEntry_def pruneIfDead_def)
    then show ?thesis
      by (simp add: store_get_def getEntry_def delete_conv')
  qed
qed

lemma store_get_frame:
  "mirror s' = mirror s \<Longrightarrow> clock s' = clock s
   \<Longrightarrow> fst (store_get key s') = fst (store_get key s)"
  by (auto simp: store_get_def getEntry_def pruneIfDead_def split: option.splits)

lemma afterCacheCheck_stable:
  assumes "fst (store_get key s) = Undefined"
  shows "fst (store_get key (afterCacheCheck key opts s)) = Undefined"
  using assms store_get_stable [OF assms] by (simp add: afterCacheCheck_def)

lemma callAll_join:
  assumes "map_of (inFlight s) key = Some p" and "fst (store_get key s) = Undefined"
  shows "fst (callAll key callers s) = replicate (length callers) (Follows p)
       \<and> background (snd (callAll key callers s)) = background s"
  using assms
proof (induction callers arbitrary: s)
  case Nil
  show ?case by simp
next
  case (Cons c callers)
  obtain f opts where c: "c = (f, opts)" by (cases c)
  let ?s1 = "afterCacheCheck key opts s"
  have b: "background ?s1 = background s" by simp
  then have i1: "map_of (inFlight ?s1) key = Some p"
    using Cons.prems(1) by (simp add: background_def)
  have g: "getOrSetAsync key f opts s = (Follows p, ?s1)"
    using getOrSetAsync_join [of opts key s p f] Cons.prems(2) i1 by simp
  have u1: "fst (store_get key ?s1) = Undefined"
    using Cons.prems(2) by (rule afterCacheCheck_stable)
  obtain rs s2 where r: "callAll key callers ?s1 = (rs, s2)"
    by (cases "callAll key callers ?s1")
  from Cons.IH [OF i1 u1] b r show ?case
    unfolding c by (simp add: g)
qed

text \<open>
  The path on which the call \<open>fetcher()\<close> returns a promise. A key with no live value and
  no fetch in flight; callers invoke \<open>getOrSetAsync\<close> for it one after the other before the
  fetch settles. The first fetcher is the only one invoked, every caller gets the same
  pending promise, and the key is in flight. When the fetch settles, with any outcome,
  every caller observes that outcome, the in-flight entry is gone, no fetcher has run
  again, and the continuation cannot run a second time. Every state reached from
  construction satisfies the invariant assumed. The hypothesis \<open>throws f = None\<close> is needed:
  \<open>thrown_fetch_stays_in_flight\<close> below is the other path.
\<close>

lemma returned_promise_shared_by_callers:
  assumes "async_inv s" and "fst (store_get key s) = Undefined"
    and "map_of (inFlight s) key = None" and "throws f = None"
  shows "fst (callAll key ((f, opts) # callers) s)
           = replicate (Suc (length callers)) (Follows (nextPromise s))
       \<and> fetcherLog (snd (callAll key ((f, opts) # callers) s)) = fetcherLog s @ [fid f]
       \<and> map_of (inFlight (snd (callAll key ((f, opts) # callers) s))) key
           = Some (nextPromise s)
       \<and> outcome (Follows (nextPromise s)) (snd (callAll key ((f, opts) # callers) s)) = None
       \<and> (\<forall>out.
            (\<forall>r \<in> set (fst (callAll key ((f, opts) # callers) s)).
               outcome r (fetchSettled (nextPromise s) out
                            (snd (callAll key ((f, opts) # callers) s))) = Some out)
          \<and> map_of (inFlight (fetchSettled (nextPromise s) out
                                 (snd (callAll key ((f, opts) # callers) s)))) key = None
          \<and> fetcherLog (fetchSettled (nextPromise s) out
                           (snd (callAll key ((f, opts) # callers) s)))
              = fetcherLog s @ [fid f]
          \<and> (\<forall>out'. fetchSettled (nextPromise s) out'
                        (fetchSettled (nextPromise s) out
                           (snd (callAll key ((f, opts) # callers) s)))
                      = fetchSettled (nextPromise s) out
                          (snd (callAll key ((f, opts) # callers) s))))
       \<and> async_inv (run_events evs (createCache copts now))"
proof -
  let ?p = "nextPromise s"
  let ?s0 = "afterCacheCheck key opts s"
  let ?s1 = "?s0\<lparr>nextPromise := nextPromise ?s0 + 1,
                  fetcherLog := fetcherLog ?s0 @ [fid f],
                  suspended := suspended ?s0 @ [(nextPromise ?s0, key, opts_ttl opts)],
                  inFlight := AList.update key (nextPromise ?s0) (inFlight ?s0)\<rparr>"
  have b0: "background ?s0 = background s" by simp
  then have e0: "inFlight ?s0 = inFlight s" "fetcherLog ?s0 = fetcherLog s"
    "promises ?s0 = promises s" "suspended ?s0 = suspended s" "nextPromise ?s0 = nextPromise s"
    by (simp_all add: background_def)
  have c: "forced opts \<or> fst (store_get key s) = Undefined" using assms(2) by simp
  have n0: "map_of (inFlight ?s0) key = None" using assms(3) e0 by simp
  have g: "getOrSetAsync key f opts s = (Follows ?p, ?s1)"
    using getOrSetAsync_start [OF c n0 assms(4)] e0 by simp
  have i1: "map_of (inFlight ?s1) key = Some ?p" by (simp add: e0 update_conv')
  have "fst (store_get key ?s0) = Undefined" using assms(2) by (rule afterCacheCheck_stable)
  moreover have "fst (store_get key ?s1) = fst (store_get key ?s0)"
    by (rule store_get_frame) simp_all
  ultimately have u1: "fst (store_get key ?s1) = Undefined" by simp
  obtain rs s2 where r: "callAll key callers ?s1 = (rs, s2)"
    by (cases "callAll key callers ?s1")
  from callAll_join [OF i1 u1, of callers] r
  have rs: "rs = replicate (length callers) (Follows ?p)" and b2: "background s2 = background ?s1"
    by simp_all
  have all: "callAll key ((f, opts) # callers) s = (Follows ?p # rs, s2)"
    using g r by simp
  from b2 e0 have e2: "inFlight s2 = AList.update key ?p (inFlight s)"
    "fetcherLog s2 = fetcherLog s @ [fid f]" "promises s2 = promises s"
    "suspended s2 = suspended s @ [(?p, key, opts_ttl opts)]" "nextPromise s2 = ?p + 1"
    by (simp_all add: background_def)
  have fresh: "?p \<notin> fst ` set (suspended s)" "?p \<notin> fst ` set (promises s)"
    using assms(1) by (auto simp: async_inv_def)
  then have pend: "map_of (promises s) ?p = None"
    by (simp add: map_of_eq_None_iff)
  have su: "map_of (suspended s2) ?p = Some (key, opts_ttl opts)"
    using fresh(1) unfolding e2 by (intro map_of_snoc_fresh) (simp add: map_of_eq_None_iff)
  have settled: "promises (fetchSettled ?p out s2) = promises s @ [(?p, out)]
               \<and> inFlight (fetchSettled ?p out s2) = AList.delete key (inFlight s2)
               \<and> fetcherLog (fetchSettled ?p out s2) = fetcherLog s @ [fid f]
               \<and> suspended (fetchSettled ?p out s2) = AList.delete ?p (suspended s2)" for out
  proof (cases out)
    case (Rejected e)
    show ?thesis unfolding Rejected fetchSettled_rejected [OF su] using e2 by simp
  next
    case (Resolved v)
    let ?t = "store_set key v (opts_ttl opts) (s2\<lparr>suspended := AList.delete ?p (suspended s2)\<rparr>)"
    have "background ?t = background (s2\<lparr>suspended := AList.delete ?p (suspended s2)\<rparr>)"
      by simp
    then have "promises ?t = promises s2" "inFlight ?t = inFlight s2"
      "fetcherLog ?t = fetcherLog s2" "suspended ?t = AList.delete ?p (suspended s2)"
      by (simp_all add: background_def)
    then show ?thesis unfolding Resolved fetchSettled_resolved [OF su] using e2 by simp
  qed
  have out: "map_of (promises (fetchSettled ?p out s2)) ?p = Some out" for out
    using settled [of out] pend by (simp add: map_of_snoc_fresh del: map_of_append)
  have gone: "map_of (inFlight (fetchSettled ?p out s2)) key = None" for out
    using settled [of out] by (simp add: delete_conv')
  have once: "fetchSettled ?p out' (fetchSettled ?p out s2) = fetchSettled ?p out s2" for out out'
    by (rule fetchSettled_idle) (simp add: settled delete_conv')
  have reach: "async_inv (run_events evs (createCache copts now))"
    by (rule async_inv_run_events) (rule async_inv_createCache)
  show ?thesis
    unfolding all
    using rs e2 pend out gone once settled reach
    by (simp add: outcome_def update_conv')
qed

text \<open>
  The path on which the call \<open>fetcher()\<close> itself throws. The async function runs up to its
  first \<open>await\<close> inside the call that creates \<open>p\<close>, so the exception passes through
  \<open>finally { inFlight.delete(key) }\<close> before \<open>inFlight.set(key, p)\<close> executes: the delete
  finds nothing, the set then stores a promise that is already rejected, and no
  continuation is left to remove it.
\<close>

lemma thrown_fetch_stays_in_flight:
  assumes "forced opts \<or> fst (store_get key s) = Undefined"
    and "map_of (inFlight s) key = None" and "throws f = Some e" and "async_inv s"
  shows "map_of (inFlight (snd (getOrSetAsync key f opts s))) key = Some (nextPromise s)
       \<and> outcome (Follows (nextPromise s)) (snd (getOrSetAsync key f opts s)) = Some (Rejected e)
       \<and> fetchSettled (nextPromise s) out (snd (getOrSetAsync key f opts s))
           = snd (getOrSetAsync key f opts s)"
proof -
  let ?s0 = "afterCacheCheck key opts s"
  have b0: "background ?s0 = background s" by simp
  then have e0: "inFlight ?s0 = inFlight s" "promises ?s0 = promises s"
    "suspended ?s0 = suspended s" "nextPromise ?s0 = nextPromise s"
    by (simp_all add: background_def)
  have n0: "map_of (inFlight ?s0) key = None" using assms(2) e0 by simp
  have fresh: "nextPromise s \<notin> fst ` set (suspended s)" "nextPromise s \<notin> fst ` set (promises s)"
    using assms(4) by (auto simp: async_inv_def)
  then have pend: "map_of (promises s) (nextPromise s) = None"
    and parked: "map_of (suspended s) (nextPromise s) = None"
    by (simp_all add: map_of_eq_None_iff)
  show ?thesis
    unfolding getOrSetAsync_throw [OF assms(1) n0 assms(3)] e0
    using pend parked
    by (simp add: update_conv' outcome_def e0 fetchSettled_idle map_of_snoc_fresh
             del: map_of_append)
qed

text \<open>
  A failure of a fetcher that returned a promise. The fetch for \<open>key\<close> is parked on promise
  \<open>p\<close>, which is then the key's in-flight entry, the promise every joined caller follows.
  When the fetcher's promise rejects with \<open>e\<close>, \<open>p\<close> is rejected with \<open>e\<close>; only the
  in-flight bookkeeping changes (the mirror and the driver log are as before); the key is
  no longer in flight, and the next \<open>getOrSetAsync\<close> for the key that gets past the
  cached-value check invokes its fetcher. A fetch is parked only when \<open>fetcher()\<close> returned.
\<close>

lemma returned_promise_rejection_propagates:
  assumes "async_inv s" and "map_of (suspended s) p = Some (key, ttl)"
  shows "map_of (inFlight s) key = Some p
       \<and> outcome (Follows p) s = None
       \<and> outcome (Follows p) (fetchSettled p (Rejected e) s) = Some (Rejected e)
       \<and> fetchSettled p (Rejected e) s
           = s\<lparr>suspended := AList.delete p (suspended s),
               inFlight := AList.delete key (inFlight s),
               promises := promises s @ [(p, Rejected e)]\<rparr>
       \<and> mirror (fetchSettled p (Rejected e) s) = mirror s
       \<and> driverLog (fetchSettled p (Rejected e) s) = driverLog s
       \<and> map_of (inFlight (fetchSettled p (Rejected e) s)) key = None
       \<and> (\<forall>f opts.
            forced opts \<or> fst (store_get key (fetchSettled p (Rejected e) s)) = Undefined \<longrightarrow>
            fetcherLog (snd (getOrSetAsync key f opts (fetchSettled p (Rejected e) s)))
              = fetcherLog s @ [fid f])
       \<and> async_inv (run_events evs (createCache copts now))"
proof -
  let ?s' = "fetchSettled p (Rejected e) s"
  have mem: "(p, key, ttl) \<in> set (suspended s)" using assms(2) by (rule map_of_SomeD)
  then have fl: "map_of (inFlight s) key = Some p"
    using assms(1) by (auto simp: async_inv_def)
  from mem have "p \<in> fst ` set (suspended s)" by force
  then have "p \<notin> fst ` set (promises s)" using assms(1) by (auto simp: async_inv_def)
  then have pend: "map_of (promises s) p = None" by (simp add: map_of_eq_None_iff)
  have eq: "?s' = s\<lparr>suspended := AList.delete p (suspended s),
                     inFlight := AList.delete key (inFlight s),
                     promises := promises s @ [(p, Rejected e)]\<rparr>"
    by (rule fetchSettled_rejected [OF assms(2)])
  have gone: "map_of (inFlight ?s') key = None" unfolding eq by (simp add: delete_conv')
  have rej: "outcome (Follows p) ?s' = Some (Rejected e)"
    unfolding eq outcome_def using pend by (simp add: map_of_snoc_fresh del: map_of_append)
  have retry: "fetcherLog (snd (getOrSetAsync key f opts ?s')) = fetcherLog s @ [fid f]"
    if c: "forced opts \<or> fst (store_get key ?s') = Undefined" for f opts
  proof -
    have b: "background (afterCacheCheck key opts ?s') = background ?s'" by simp
    then have n: "map_of (inFlight (afterCacheCheck key opts ?s')) key = None"
      using gone by (simp add: background_def)
    have fl': "fetcherLog (afterCacheCheck key opts ?s') = fetcherLog s"
      using b unfolding eq by (simp add: background_def)
    show ?thesis
    proof (cases "throws f")
      case None
      show ?thesis unfolding getOrSetAsync_start [OF c n None] using fl' by simp
    next
      case (Some x)
      show ?thesis unfolding getOrSetAsync_throw [OF c n Some] using fl' by simp
    qed
  qed
  have reach: "async_inv (run_events evs (createCache copts now))"
    by (rule async_inv_run_events) (rule async_inv_createCache)
  show ?thesis
    using fl pend rej gone retry eq reach by (simp add: outcome_def)
qed

text \<open>
  C9. In every state reached from construction, \<open>isReady()\<close> is true exactly when the
  readiness promise has settled; once that is so, no later event changes either. Without
  hydration the store is ready and resolved from the start; with hydration it starts not
  ready, and stays so exactly while the bootstrap is parked. A rejected key listing or
  row fetch makes it ready with the promise rejected with that error; the rows arriving
  make it ready with the promise resolved.
\<close>

theorem readiness_settles_once:
  "(isReady (run_events evs (createCache opts now))
      \<longleftrightarrow> readyPromise (run_events evs (createCache opts now)) \<noteq> None)
   \<and> (isReady (run_events evs (createCache opts now)) \<longrightarrow>
        isReady (run_events evs' (run_events evs (createCache opts now)))
      \<and> readyPromise (run_events evs' (run_events evs (createCache opts now)))
          = readyPromise (run_events evs (createCache opts now)))
   \<and> (\<not> isReady (run_events evs (createCache opts now)) \<longrightarrow>
        hydrationPhase (run_events evs (createCache opts now)) = AwaitingKeys
      \<or> hydrationPhase (run_events evs (createCache opts now)) = AwaitingRows)
   \<and> (hydrate opts = Some False \<longrightarrow>
        isReady (createCache opts now)
      \<and> readyPromise (createCache opts now) = Some (Resolved Undefined))
   \<and> (hydrate opts \<noteq> Some False \<longrightarrow>
        \<not> isReady (createCache opts now) \<and> readyPromise (createCache opts now) = None
      \<and> hydrationPhase (createCache opts now) = AwaitingKeys)
   \<and> (hydrationPhase (run_events evs (createCache opts now)) = AwaitingKeys \<longrightarrow>
        isReady (step (KeysListed (Inl e)) (run_events evs (createCache opts now)))
      \<and> readyPromise (step (KeysListed (Inl e)) (run_events evs (createCache opts now)))
          = Some (Rejected e)
      \<and> \<not> isReady (step (KeysListed (Inr ks)) (run_events evs (createCache opts now)))
      \<and> hydrationPhase (step (KeysListed (Inr ks)) (run_events evs (createCache opts now)))
          = AwaitingRows)
   \<and> (hydrationPhase (run_events evs (createCache opts now)) = AwaitingRows \<longrightarrow>
        isReady (step (RowsFetched (Inl e)) (run_events evs (createCache opts now)))
      \<and> readyPromise (step (RowsFetched (Inl e)) (run_events evs (createCache opts now)))
          = Some (Rejected e)
      \<and> isReady (step (RowsFetched (Inr rows)) (run_events evs (createCache opts now)))
      \<and> readyPromise (step (RowsFetched (Inr rows)) (run_events evs (createCache opts now)))
          = Some (Resolved Undefined))"
proof -
  let ?s = "run_events evs (createCache opts now)"
  have ok: "readiness_ok ?s"
    using readiness_run_events [OF readiness_createCache] by blast
  have stay: "ready ?s \<longrightarrow> ready (run_events evs' ?s) \<and> readyP (run_events evs' ?s) = readyP ?s"
    using readiness_run_events [OF ok] by blast
  have phase: "\<not> ready ?s \<longrightarrow> hydrationPhase ?s = AwaitingKeys \<or> hydrationPhase ?s = AwaitingRows"
    using ok unfolding readiness_ok_def by (cases "hydrationPhase ?s") auto
  have pend: "\<not> ready ?s \<longrightarrow> readyP ?s = None"
    using ok unfolding readiness_ok_def by auto
  have init: "(hydrate opts = Some False \<longrightarrow>
        ready (createCache opts now) \<and> readyP (createCache opts now) = Some (Resolved Undefined))
   \<and> (hydrate opts \<noteq> Some False \<longrightarrow>
        \<not> ready (createCache opts now) \<and> readyP (createCache opts now) = None
      \<and> hydrationPhase (createCache opts now) = AwaitingKeys)"
    by (cases "hydrate opts")
       (auto simp: createCache_def emptyState_def queueEmitReady_def emitReadyNow_def settle_def)
  have keys: "ready (keysListed (Inl e) ?s) \<and> readyP (keysListed (Inl e) ?s) = Some (Rejected e)
      \<and> \<not> ready (keysListed (Inr ks) ?s) \<and> hydrationPhase (keysListed (Inr ks) ?s) = AwaitingRows"
    if "hydrationPhase ?s = AwaitingKeys"
  proof -
    from that ok have "\<not> ready ?s" "readyP ?s = None" by (auto simp: readiness_ok_def)
    with that ready_hydrationFailed [of e ?s] show ?thesis
      by (simp add: keysListed_def settle_def)
  qed
  have rows: "ready (rowsFetched (Inl e) ?s) \<and> readyP (rowsFetched (Inl e) ?s) = Some (Rejected e)
      \<and> ready (rowsFetched (Inr rows) ?s)
      \<and> readyP (rowsFetched (Inr rows) ?s) = Some (Resolved Undefined)"
    if "hydrationPhase ?s = AwaitingRows"
  proof -
    from that ok have "\<not> ready ?s" "readyP ?s = None" by (auto simp: readiness_ok_def)
    with that ready_hydrationFailed [of e ?s] ready_rowsFetched_ok [OF that, of rows] show ?thesis
      by (simp add: rowsFetched_def settle_def)
  qed
  show ?thesis
    unfolding isReady_def readyPromise_def step.simps
    using ok stay phase init keys rows
    by (simp add: readiness_ok_def)
qed

lemma demo_fetching_eq:
  "demo_fetching
   = demo_store\<lparr>nextPromise := 1, fetcherLog := [1], suspended := [(0, ''k'', None)],
                inFlight := [(''k'', 0)]\<rparr>"
  by (simp add: demo_fetching_def getOrSetAsync_def eval_defs)

lemma demo_fetching_fields:
  "inFlight demo_fetching = [(''k'', 0)]" "suspended demo_fetching = [(0, ''k'', None)]"
  "promises demo_fetching = []" "fetcherLog demo_fetching = [1]" "nextPromise demo_fetching = 1"
  "mirror demo_fetching = []"
  unfolding demo_fetching_eq by (simp_all add: eval_defs)

lemma demo_store_fields:
  "inFlight demo_store = []" "suspended demo_store = []" "promises demo_store = []"
  "fetcherLog demo_store = []" "nextPromise demo_store = 0" "mirror demo_store = []"
  by (simp_all add: eval_defs)

theorem force_joins_in_flight_witness:
  "forced demo_force
   \<and> getOrSetAsync ''k'' (Fetcher 2 None) demo_force demo_fetching = (Follows 0, demo_fetching)
   \<and> fetcherLog demo_fetching = [1]"
proof -
  have h: "forced demo_force" by (simp add: forced_def demo_force_def)
  show ?thesis
    using force_joins_in_flight [OF h, of demo_fetching "''k''" "Fetcher 2 None"] h
    by (simp add: demo_fetching_fields)
qed

lemma returned_promise_shared_by_callers_example:
  "fst (callAll ''k'' [(Fetcher 1 None, None), (Fetcher 2 None, None), (Fetcher 3 None, demo_force)]
          demo_store)
     = [Follows 0, Follows 0, Follows 0]
   \<and> fetcherLog (snd (callAll ''k''
        [(Fetcher 1 None, None), (Fetcher 2 None, None), (Fetcher 3 None, demo_force)] demo_store))
     = [1]
   \<and> outcome (Follows 0)
       (fetchSettled 0 (Resolved (Num 7))
          (snd (callAll ''k''
             [(Fetcher 1 None, None), (Fetcher 2 None, None), (Fetcher 3 None, demo_force)]
             demo_store)))
     = Some (Resolved (Num 7))
   \<and> map_of (inFlight
       (fetchSettled 0 (Resolved (Num 7))
          (snd (callAll ''k''
             [(Fetcher 1 None, None), (Fetcher 2 None, None), (Fetcher 3 None, demo_force)]
             demo_store)))) ''k''
     = None"
proof -
  have h1: "async_inv demo_store" by (simp add: async_inv_def demo_store_fields)
  have h2: "fst (store_get ''k'' demo_store) = Undefined"
    by (simp add: store_get_def getEntry_def demo_store_fields)
  have h3: "map_of (inFlight demo_store) ''k'' = None" by (simp add: demo_store_fields)
  have h4: "throws (Fetcher 1 None) = None" by simp
  show ?thesis
    using returned_promise_shared_by_callers
            [OF h1 h2 h3 h4, of None "[(Fetcher 2 None, None), (Fetcher 3 None, demo_force)]"]
    by (simp add: demo_store_fields)
qed

lemma returned_promise_rejection_propagates_example:
  "outcome (Follows 0) (fetchSettled 0 (Rejected (Str ''boom'')) demo_fetching)
     = Some (Rejected (Str ''boom''))
   \<and> mirror (fetchSettled 0 (Rejected (Str ''boom'')) demo_fetching) = mirror demo_fetching
   \<and> map_of (inFlight (fetchSettled 0 (Rejected (Str ''boom'')) demo_fetching)) ''k'' = None
   \<and> fetcherLog (snd (getOrSetAsync ''k'' (Fetcher 2 None) None
                         (fetchSettled 0 (Rejected (Str ''boom'')) demo_fetching)))
     = [1, 2]"
proof -
  have h1: "async_inv demo_fetching" by (simp add: async_inv_def demo_fetching_fields)
  have h2: "map_of (suspended demo_fetching) 0 = Some (''k'', None)"
    by (simp add: demo_fetching_fields)
  have m: "mirror (fetchSettled 0 (Rejected (Str ''boom'')) demo_fetching) = []"
    by (simp add: fetchSettled_rejected [OF h2] demo_fetching_fields)
  have u: "fst (store_get ''k'' (fetchSettled 0 (Rejected (Str ''boom'')) demo_fetching)) = Undefined"
    by (simp add: store_get_def getEntry_def m)
  note t = returned_promise_rejection_propagates [OF h1 h2, of "Str ''boom''" "[]" demo_opts 0]
  note c3 = t [THEN conjunct2, THEN conjunct2, THEN conjunct1]
  note c5 = t [THEN conjunct2, THEN conjunct2, THEN conjunct2, THEN conjunct2, THEN conjunct1]
  note c7 = t [THEN conjunct2, THEN conjunct2, THEN conjunct2, THEN conjunct2, THEN conjunct2,
               THEN conjunct2, THEN conjunct1]
  note c8 = t [THEN conjunct2, THEN conjunct2, THEN conjunct2, THEN conjunct2, THEN conjunct2,
               THEN conjunct2, THEN conjunct2, THEN conjunct1, THEN spec, THEN spec, THEN mp,
               of None "Fetcher 2 None"]
  have "fetcherLog (snd (getOrSetAsync ''k'' (Fetcher 2 None) None
                           (fetchSettled 0 (Rejected (Str ''boom'')) demo_fetching))) = [1, 2]"
    using c8 u by (simp add: demo_fetching_fields)
  with c3 c5 c7 show ?thesis by blast
qed

lemma demo_poisoned_eq:
  "getOrSetAsync ''k'' demo_thrower None demo_store
   = (Follows 0,
      demo_store\<lparr>nextPromise := 1, fetcherLog := [1],
                 promises := [(0, Rejected (Str ''boom''))], inFlight := [(''k'', 0)]\<rparr>)"
  by (simp add: demo_thrower_def getOrSetAsync_def eval_defs)

lemma demo_poisoned_fields:
  "inFlight demo_poisoned = [(''k'', 0)]" "suspended demo_poisoned = []"
  "promises demo_poisoned = [(0, Rejected (Str ''boom''))]" "fetcherLog demo_poisoned = [1]"
  "nextPromise demo_poisoned = 1" "mirror demo_poisoned = []"
  unfolding demo_poisoned_def demo_poisoned_eq by (simp_all add: eval_defs)

lemma demo_poisoned_get: "store_get ''k'' demo_poisoned = (Undefined, demo_poisoned)"
  by (simp add: store_get_def getEntry_def demo_poisoned_fields)

lemma demo_poisoned_join:
  "getOrSetAsync ''k'' f opts demo_poisoned = (Follows 0, demo_poisoned)"
proof -
  have a: "afterCacheCheck ''k'' opts demo_poisoned = demo_poisoned"
    by (simp add: afterCacheCheck_def demo_poisoned_get)
  have c: "forced opts \<or> fst (store_get ''k'' demo_poisoned) = Undefined"
    by (simp add: demo_poisoned_get)
  show ?thesis
    using getOrSetAsync_join [OF c, of 0 f] by (simp add: a demo_poisoned_fields)
qed

text \<open>
  C2. The code departs from the claim when the first caller's fetcher throws as it is called
  (\<open>() => { throw new Error("boom") }\<close>) instead of returning a promise. On a store just
  created, \<open>k\<close> has no live value and no fetch in flight, and three callers invoke
  \<open>getOrSetAsync("k", ...)\<close> one after the other, the first with the throwing fetcher. As
  claimed, only that fetcher is invoked and the three callers get one promise, rejected with
  the error thrown. Against the claim, the in-flight entry of \<open>k\<close> is not removed: it still
  names the rejected promise, and no continuation is parked that could remove it (settling
  promise 0 again changes nothing). In the state reached \<open>k\<close> still has no live value, yet
  of two further concurrent callers, one of them with \<open>force: true\<close>, neither has its
  fetcher invoked: both get the rejected promise and the state is unchanged.
\<close>

theorem thrown_fetch_blocks_later_callers:
  "fst (store_get ''k'' demo_store) = Undefined
   \<and> map_of (inFlight demo_store) ''k'' = None
   \<and> callAll ''k'' [(demo_thrower, None), (Fetcher 2 None, None), (Fetcher 3 None, None)]
        demo_store
       = ([Follows 0, Follows 0, Follows 0], demo_poisoned)
   \<and> fetcherLog demo_poisoned = [1]
   \<and> outcome (Follows 0) demo_poisoned = Some (Rejected (Str ''boom''))
   \<and> map_of (inFlight demo_poisoned) ''k'' = Some 0
   \<and> fetchSettled 0 (Rejected (Str ''boom'')) demo_poisoned = demo_poisoned
   \<and> fst (store_get ''k'' demo_poisoned) = Undefined
   \<and> callAll ''k'' [(Fetcher 4 None, None), (Fetcher 5 None, demo_force)] demo_poisoned
       = ([Follows 0, Follows 0], demo_poisoned)"
proof -
  have "getOrSetAsync ''k'' demo_thrower None demo_store = (Follows 0, demo_poisoned)"
    using demo_poisoned_eq by (simp add: demo_poisoned_def)
  then show ?thesis
    by (simp add: demo_poisoned_join demo_poisoned_get demo_poisoned_fields outcome_def
          fetchSettled_def demo_store_fields store_get_def getEntry_def)
qed

text \<open>
  C7. The code departs from the claim when the fetcher fails by throwing as it is called
  rather than by returning a promise that rejects. The state below is the one reached from
  construction by the single call \<open>getOrSetAsync("k", () => { throw new Error("boom") })\<close>.
  As claimed, the caller's promise is rejected with the error and the mirror is as before.
  Against the claim, the in-flight entry is not cleared: \<open>inFlight\<close> still maps \<open>k\<close> to the
  rejected promise, nothing is parked that would delete it, and a subsequent
  \<open>getOrSetAsync("k", ...)\<close>, with or without \<open>force: true\<close>, returns that rejected promise
  without invoking its fetcher: the fetcher log still holds the first fetcher only.
\<close>

theorem thrown_fetch_never_cleared:
  "demo_poisoned = run_events [Call (CGetOrSetAsync ''k'' demo_thrower None)] (createCache demo_opts 0)
   \<and> fst (getOrSetAsync ''k'' demo_thrower None demo_store) = Follows 0
   \<and> outcome (Follows 0) demo_poisoned = Some (Rejected (Str ''boom''))
   \<and> mirror demo_poisoned = mirror demo_store
   \<and> map_of (inFlight demo_poisoned) ''k'' = Some 0
   \<and> suspended demo_poisoned = []
   \<and> fetchSettled 0 (Rejected (Str ''boom'')) demo_poisoned = demo_poisoned
   \<and> getOrSetAsync ''k'' (Fetcher 2 None) None demo_poisoned = (Follows 0, demo_poisoned)
   \<and> getOrSetAsync ''k'' (Fetcher 2 None) demo_force demo_poisoned = (Follows 0, demo_poisoned)
   \<and> fetcherLog demo_poisoned = [1]"
proof -
  have r: "demo_poisoned
      = run_events [Call (CGetOrSetAsync ''k'' demo_thrower None)] (createCache demo_opts 0)"
    by (simp add: run_events_def demo_poisoned_def demo_store_def)
  have f: "fst (getOrSetAsync ''k'' demo_thrower None demo_store) = Follows 0"
    by (simp add: demo_poisoned_eq)
  have m: "mirror demo_poisoned = mirror demo_store"
    by (simp add: demo_poisoned_fields demo_store_fields)
  have st: "fetchSettled 0 (Rejected (Str ''boom'')) demo_poisoned = demo_poisoned"
    by (simp add: fetchSettled_def demo_poisoned_fields)
  have oc: "outcome (Follows 0) demo_poisoned = Some (Rejected (Str ''boom''))"
    by (simp add: outcome_def demo_poisoned_fields)
  have fl: "map_of (inFlight demo_poisoned) ''k'' = Some 0"
    by (simp add: demo_poisoned_fields)
  show ?thesis
    using r f m st oc fl demo_poisoned_join demo_poisoned_fields(2,4) by (intro conjI)
qed

lemma hydrating_phase:
  "hydrationPhase (run_events [KeysListed (Inr [''user:1'', ''user:2''])]
                     (createCache hydrating_opts 1500)) = AwaitingRows"
  by (simp add: run_events_def keysListed_def createCache_def emptyState_def hydrating_opts_def)

theorem readiness_settles_once_witness:
  "\<not> isReady (createCache hydrating_opts 1500)
   \<and> isReady (step (RowsFetched (Inr demo_rows))
               (run_events [KeysListed (Inr [''user:1'', ''user:2''])]
                  (createCache hydrating_opts 1500)))
   \<and> readyPromise (step (RowsFetched (Inr demo_rows))
                    (run_events [KeysListed (Inr [''user:1'', ''user:2''])]
                       (createCache hydrating_opts 1500)))
     = Some (Resolved Undefined)
   \<and> readyPromise (step (RowsFetched (Inl (Str ''io'')))
                    (run_events [KeysListed (Inr [''user:1'', ''user:2''])]
                       (createCache hydrating_opts 1500)))
     = Some (Rejected (Str ''io''))"
proof -
  have h: "hydrate hydrating_opts \<noteq> Some False" by (simp add: hydrating_opts_def)
  show ?thesis
    using readiness_settles_once
            [of "[KeysListed (Inr [''user:1'', ''user:2''])]" hydrating_opts 1500 "[]"
                "Str ''io''" "[]" demo_rows]
          hydrating_phase h
    by simp
qed

end
